theory Spec2Isabelle
  imports Main "HOL-Library.Multiset"
begin

section \<open>Events\<close>

text \<open>
  \<open>simulation.py\<close> imports \<open>Event\<close>, \<open>CustomerArrival\<close> and \<open>CheckoutCompleted\<close>
  from \<open>event.py\<close>. The driver reads \<open>event.timestamp\<close> of every event, and
  \<open>event.customer\<close> of the two kinds it tests with \<open>isinstance\<close>; every other
  kind of event is \<open>OtherEvent\<close>. Timestamps are Python integers.
\<close>

text \<open>
  Modelled from the spec: the \<open>Customer\<close> class (\<open>store.py\<close>) is missing. The spec keys
  the bookkeeping by "a customer identity (name or equivalent unique key)", so a customer
  is its name, and the dictionary's key equality is equality of names.
\<close>

type_synonym customer = string

datatype event =
    CustomerArrival int customer
  | CheckoutCompleted int customer
  | OtherEvent int

fun timestamp :: "event \<Rightarrow> int" where
  "timestamp (CustomerArrival t c) = t"
| "timestamp (CheckoutCompleted t c) = t"
| "timestamp (OtherEvent t) = t"

datatype error = EmptyQueueError | KeyError | IndexError

section \<open>The priority queue\<close>

text \<open>
  Modelled from the spec: \<open>container.py\<close> (class \<open>PriorityQueue\<close>) is missing. The spec:
  the queue "holds a multiset of Events with an associated monotonically increasing
  insertion sequence number"; \<open>add\<close> "inserts event, stamping it with the next insertion
  sequence number; always succeeds"; \<open>remove\<close> "returns and evicts the minimum element"
  under "(event-order, insertion-sequence) lexicographic comparison" and "fails with an
  empty queue condition if called while empty"; \<open>is_empty\<close> is "true iff no elements are
  pending". Events "are ordered primarily by timestamp (earlier first)".
\<close>

record PriorityQueue =
  items :: "(nat \<times> event) list"
  next_seq :: nat

definition pq_new :: PriorityQueue where
  "pq_new = \<lparr>items = [], next_seq = 0\<rparr>"

definition pq_add :: "PriorityQueue \<Rightarrow> event \<Rightarrow> PriorityQueue" where
  "pq_add q e = \<lparr>items = items q @ [(next_seq q, e)], next_seq = Suc (next_seq q)\<rparr>"

definition pq_is_empty :: "PriorityQueue \<Rightarrow> bool" where
  "pq_is_empty q = (items q = [])"

text \<open>The lexicographic comparison of two stamped events: timestamp, then stamp.\<close>

fun before :: "nat \<times> event \<Rightarrow> nat \<times> event \<Rightarrow> bool" where
  "before (s1, e1) (s2, e2) =
     (timestamp e1 < timestamp e2 \<or> (timestamp e1 = timestamp e2 \<and> s1 < s2))"

fun min_item :: "nat \<times> event \<Rightarrow> (nat \<times> event) list \<Rightarrow> nat \<times> event" where
  "min_item m [] = m"
| "min_item m (x # xs) = min_item (if before x m then x else m) xs"

text \<open>
  \<open>pq_pop\<close> is \<open>remove\<close> with the stamp of the removed event still attached;
  \<open>pq_remove\<close> is what the caller of \<open>remove()\<close> sees.
\<close>

definition pq_pop :: "PriorityQueue \<Rightarrow> error + ((nat \<times> event) \<times> PriorityQueue)" where
  "pq_pop q =
     (case items q of
        [] \<Rightarrow> Inl EmptyQueueError
      | x # xs \<Rightarrow>
          (let m = min_item x xs
           in Inr (m, \<lparr>items = remove1 m (items q), next_seq = next_seq q\<rparr>)))"

definition pq_remove :: "PriorityQueue \<Rightarrow> error + (event \<times> PriorityQueue)" where
  "pq_remove q =
     (case pq_pop q of
        Inl err \<Rightarrow> Inl err
      | Inr (m, q') \<Rightarrow> Inr (snd m, q'))"

subsection \<open>Sequences of queue operations\<close>

datatype queue_op = Add event | Remove

text \<open>
  \<open>removed q ops\<close> runs the calls \<open>ops\<close> on the queue \<open>q\<close> and lists the removed events
  with their stamps, in the order of removal; a \<open>remove\<close> on the empty queue fails.
\<close>

fun removed :: "PriorityQueue \<Rightarrow> queue_op list \<Rightarrow> error + (nat \<times> event) list" where
  "removed q [] = Inr []"
| "removed q (Add e # ops) = removed (pq_add q e) ops"
| "removed q (Remove # ops) =
     (case pq_pop q of
        Inl err \<Rightarrow> Inl err
      | Inr (m, q') \<Rightarrow>
          (case removed q' ops of
             Inl err \<Rightarrow> Inl err
           | Inr ms \<Rightarrow> Inr (m # ms)))"

text \<open>
  \<open>timely q lb ops\<close>: no call of \<open>ops\<close> adds an event with a timestamp below that of
  the event removed last before it (below \<open>lb\<close>, while \<open>ops\<close> has removed none). Then
  the removed events are non-decreasing, so the event removed last is the latest removed.
\<close>

fun timely :: "PriorityQueue \<Rightarrow> int option \<Rightarrow> queue_op list \<Rightarrow> bool" where
  "timely q lb [] = True"
| "timely q lb (Add e # ops) =
     ((case lb of None \<Rightarrow> True | Some t \<Rightarrow> t \<le> timestamp e) \<and> timely (pq_add q e) lb ops)"
| "timely q lb (Remove # ops) =
     (case pq_pop q of
        Inl err \<Rightarrow> True
      | Inr (m, q') \<Rightarrow> timely q' (Some (timestamp (snd m))) ops)"

text \<open>The events added by a sequence of calls, in the order of the calls.\<close>

fun added :: "queue_op list \<Rightarrow> event list" where
  "added [] = []"
| "added (Add e # ops) = e # added ops"
| "added (Remove # ops) = added ops"

text \<open>
  \<open>above lb t\<close>: the timestamp \<open>t\<close> is not below the bound \<open>lb\<close>, when there is one.
\<close>

fun above :: "int option \<Rightarrow> int \<Rightarrow> bool" where
  "above None t = True"
| "above (Some lb) t = (lb \<le> t)"

text \<open>
  \<open>tie_fifo a b\<close>, for \<open>a\<close> removed before \<open>b\<close>: when the two events have equal
  timestamps, \<open>a\<close> carries the smaller stamp.
\<close>

definition tie_fifo :: "nat \<times> event \<Rightarrow> nat \<times> event \<Rightarrow> bool" where
  "tie_fifo a b = (timestamp (snd a) = timestamp (snd b) \<longrightarrow> fst a < fst b)"

text \<open>\<open>logged pre (k, e)\<close>: the event \<open>e\<close> is the one that the \<open>k\<close>-th \<open>add\<close> of \<open>pre\<close> added.\<close>

fun logged :: "event list \<Rightarrow> nat \<times> event \<Rightarrow> bool" where
  "logged pre (k, e) = (k < length pre \<and> pre ! k = e)"

text \<open>The stamps of the pending events are distinct and below the next stamp.\<close>

definition stamped :: "PriorityQueue \<Rightarrow> bool" where
  "stamped q = (distinct (map fst (items q)) \<and> (\<forall>x\<in>set (items q). fst x < next_seq q))"

section \<open>The simulation driver\<close>

record stats =
  num_customers :: int
  total_time :: int
  max_wait :: int

definition zero_stats :: stats where
  "zero_stats = \<lparr>num_customers = 0, total_time = 0, max_wait = 0\<rparr>"

text \<open>
  The class \<open>GroceryStoreSimulation\<close>. The store (\<open>store.py\<close>, missing) is opaque to the
  driver, which only hands it to \<open>event.do\<close>: its type is a parameter.
\<close>

record 's GroceryStoreSimulation =
  events :: PriorityQueue
  store :: 's
  stats :: stats

text \<open>\<open>__init__\<close>, given the store that \<open>GroceryStore(store_file)\<close> builds.\<close>

definition init :: "'s \<Rightarrow> 's GroceryStoreSimulation" where
  "init st = \<lparr>events = pq_new, store = st, stats = zero_stats\<rparr>"

text \<open>
  The local dictionary \<open>customers\<close> of \<open>run\<close>: keys in insertion order, each with its
  list of timestamps.
\<close>

type_synonym customers = "(customer \<times> int list) list"

text \<open>Lines 74-78: an arrival records the customer unless it is already a key.\<close>

fun record_arrival :: "event \<Rightarrow> customers \<Rightarrow> customers" where
  "record_arrival (CustomerArrival arrive_time c) cs =
     (if map_of cs c = None then cs @ [(c, [arrive_time])] else cs)"
| "record_arrival e cs = cs"

text \<open>\<open>customers[customer].append(checkout_time)\<close>: a missing key raises.\<close>

fun append_time :: "customers \<Rightarrow> customer \<Rightarrow> int \<Rightarrow> error + customers" where
  "append_time [] c t = Inl KeyError"
| "append_time ((k, ts) # cs) c t =
     (if k = c then Inr ((k, ts @ [t]) # cs)
      else (case append_time cs c t of
              Inl err \<Rightarrow> Inl err
            | Inr cs' \<Rightarrow> Inr ((k, ts) # cs')))"

text \<open>Lines 80-83.\<close>

fun record_completion :: "event \<Rightarrow> customers \<Rightarrow> error + customers" where
  "record_completion (CheckoutCompleted checkout_time c) cs = append_time cs c checkout_time"
| "record_completion e cs = Inr cs"

text \<open>
  The state of \<open>run\<close> inside its loop: the object, the local \<open>customers\<close>, and the
  history \<open>executed\<close> of the events whose \<open>do\<close> has been called so far, in order. The
  history is not a variable of the source; no step reads it.
\<close>

record 's run_state =
  sim :: "'s GroceryStoreSimulation"
  customers :: customers
  executed :: "event list"

text \<open>
  \<open>event.do(self._store)\<close> is missing with \<open>event.py\<close>: it is the parameter \<open>do\<close>,
  which returns the new events and the store as the call leaves it.
\<close>

type_synonym 's do_fun = "event \<Rightarrow> 's \<Rightarrow> event list \<times> 's"

text \<open>
  Lines 70-83, one pass through the body of the loop. The result carries the exception
  raised, if any, and the state as the exception leaves it.
\<close>

definition loop_body :: "'s do_fun \<Rightarrow> 's run_state \<Rightarrow> error option \<times> 's run_state" where
  "loop_body do st =
     (case pq_remove (events (sim st)) of
        Inl err \<Rightarrow> (Some err, st)
      | Inr (event, q1) \<Rightarrow>
          (let r = do event (store (sim st));
               q2 = fold (\<lambda>n q. pq_add q n) (fst r) q1;
               cs1 = record_arrival event (customers st);
               sim1 = \<lparr>events = q2, store = snd r,
                       stats = (stats (sim st))\<lparr>total_time := timestamp event\<rparr>\<rparr>;
               st1 = \<lparr>sim = sim1, customers = cs1, executed = executed st @ [event]\<rparr>
           in (case record_completion event cs1 of
                 Inl err \<Rightarrow> (Some err, st1)
               | Inr cs2 \<Rightarrow> (None, st1\<lparr>customers := cs2\<rparr>))))"

text \<open>Lines 69-83. The loop may run forever: then the value is \<open>None\<close>.\<close>

partial_function (option) run_loop ::
  "'s do_fun \<Rightarrow> 's run_state \<Rightarrow> (error option \<times> 's run_state) option" where
  "run_loop do st =
     (if pq_is_empty (events (sim st)) then Some (None, st)
      else (case loop_body do st of
              (Some err, st') \<Rightarrow> Some (Some err, st')
            | (None, st') \<Rightarrow> run_loop do st'))"

declare run_loop.simps [code]

text \<open>Lines 84-88: \<open>customers[customer][1]\<close> raises on a list shorter than two.\<close>

fun max_time_loop :: "int \<Rightarrow> customers \<Rightarrow> error + int" where
  "max_time_loop max_time [] = Inr max_time"
| "max_time_loop max_time ((c, ts) # cs) =
     (case ts of
        a # b # rest \<Rightarrow>
          (let time = b - a
           in max_time_loop (if max_time < time then time else max_time) cs)
      | _ \<Rightarrow> Inl IndexError)"

text \<open>Lines 84-90, on the state the loop has left.\<close>

definition finish :: "'s run_state \<Rightarrow> error option \<times> 's run_state" where
  "finish st =
     (case max_time_loop 0 (customers st) of
        Inl err \<Rightarrow> (Some err, st)
      | Inr max_time \<Rightarrow>
          (None, st\<lparr>sim := (sim st)\<lparr>stats :=
             (stats (sim st))\<lparr>max_wait := max_time,
                              num_customers := int (length (customers st))\<rparr>\<rparr>\<rparr>))"

text \<open>The body of \<open>run\<close>, with the local state still visible in the result.\<close>

definition run_trace ::
  "'s do_fun \<Rightarrow> 's GroceryStoreSimulation \<Rightarrow> event list \<Rightarrow> (error option \<times> 's run_state) option" where
  "run_trace do s initial_events =
     (let s1 = s\<lparr>stats := zero_stats\<rparr>;
          s2 = s1\<lparr>events := fold (\<lambda>e q. pq_add q e) initial_events (events s1)\<rparr>
      in (case run_loop do \<lparr>sim = s2, customers = [], executed = []\<rparr> of
            None \<Rightarrow> None
          | Some (Some err, st) \<Rightarrow> Some (Some err, st)
          | Some (None, st) \<Rightarrow> Some (finish st)))"

text \<open>
  \<open>run\<close>: the exception raised, if any, and the object as the call leaves it;
  \<open>None\<close> when the call does not return.
\<close>

definition run ::
  "'s do_fun \<Rightarrow> 's GroceryStoreSimulation \<Rightarrow> event list
     \<Rightarrow> (error option \<times> 's GroceryStoreSimulation) option" where
  "run do s initial_events =
     map_option (\<lambda>(err, st). (err, sim st)) (run_trace do s initial_events)"

section \<open>What a run has executed\<close>

text \<open>
  Functions of the history of executed events, in which the claims about the statistics
  are stated.
\<close>

text \<open>No call of \<open>do\<close> returns a new event.\<close>

definition no_successors :: "'s do_fun \<Rightarrow> bool" where
  "no_successors do = (\<forall>e s. fst (do e s) = [])"

text \<open>The timestamp of the first arrival of customer \<open>c\<close>.\<close>

fun first_arrival :: "customer \<Rightarrow> event list \<Rightarrow> int option" where
  "first_arrival c [] = None"
| "first_arrival c (CustomerArrival t k # es) = (if k = c then Some t else first_arrival c es)"
| "first_arrival c (e # es) = first_arrival c es"

text \<open>The timestamps of the checkout completions of customer \<open>c\<close>, in order.\<close>

fun completions :: "customer \<Rightarrow> event list \<Rightarrow> int list" where
  "completions c [] = []"
| "completions c (CheckoutCompleted t k # es) =
     (if k = c then t # completions c es else completions c es)"
| "completions c (e # es) = completions c es"

definition first_completion :: "customer \<Rightarrow> event list \<Rightarrow> int option" where
  "first_completion c es = (case completions c es of [] \<Rightarrow> None | t # ts \<Rightarrow> Some t)"

text \<open>The customers of the arrival events, in order, with repetitions.\<close>

fun arrived :: "event list \<Rightarrow> customer list" where
  "arrived [] = []"
| "arrived (CustomerArrival t k # es) = k # arrived es"
| "arrived (e # es) = arrived es"

text \<open>
  \<open>arrivals_first seen es\<close>: every checkout completion in \<open>es\<close> is for a customer in
  \<open>seen\<close> or for one with an arrival earlier in \<open>es\<close>.
\<close>

fun arrivals_first :: "customer list \<Rightarrow> event list \<Rightarrow> bool" where
  "arrivals_first seen [] = True"
| "arrivals_first seen (CustomerArrival t c # es) = arrivals_first (c # seen) es"
| "arrivals_first seen (CheckoutCompleted t c # es) = (c \<in> set seen \<and> arrivals_first seen es)"
| "arrivals_first seen (OtherEvent t # es) = arrivals_first seen es"

text \<open>Lines 74-83 without the assignment to \<open>total_time\<close>: what one event does to \<open>customers\<close>.\<close>

definition bookkeep :: "event \<Rightarrow> customers \<Rightarrow> error + customers" where
  "bookkeep e cs = record_completion e (record_arrival e cs)"

text \<open>
  \<open>quiet n do cs x q\<close>: in the next \<open>n\<close> passes of the loop from the dictionary \<open>cs\<close>,
  the store \<open>x\<close> and the queue \<open>q\<close>, every call of \<open>do\<close> returns no new event. The
  passes end where the loop ends: at the empty queue, or where the bookkeeping raises.
\<close>

fun quiet :: "nat \<Rightarrow> 's do_fun \<Rightarrow> customers \<Rightarrow> 's \<Rightarrow> PriorityQueue \<Rightarrow> bool" where
  "quiet 0 do cs x q = True"
| "quiet (Suc n) do cs x q =
     (case pq_remove q of
        Inl err \<Rightarrow> True
      | Inr (event, q1) \<Rightarrow>
          fst (do event x) = [] \<and>
          (case bookkeep event cs of
             Inl err \<Rightarrow> True
           | Inr cs1 \<Rightarrow> quiet n do cs1 (snd (do event x)) q1))"

text \<open>
  No execution of an event in the run of \<open>initial_events\<close> on the driver \<open>s\<close> produces a
  successor event.
\<close>

definition quiet_run :: "'s do_fun \<Rightarrow> 's GroceryStoreSimulation \<Rightarrow> event list \<Rightarrow> bool" where
  "quiet_run do s initial_events =
     quiet (length initial_events) do [] (store s)
       (fold (\<lambda>e q. pq_add q e) initial_events (events s))"

text \<open>
  \<open>recorded evs cs\<close>: the dictionary \<open>cs\<close> holds, for each customer that arrived in
  \<open>evs\<close>, the timestamp of its first arrival followed by the timestamps of its
  completions, and nothing else.
\<close>

definition recorded :: "event list \<Rightarrow> customers \<Rightarrow> bool" where
  "recorded evs cs =
     (distinct (map fst cs) \<and>
      (\<forall>c. map_of cs c =
         (case first_arrival c evs of None \<Rightarrow> None | Some a \<Rightarrow> Some (a # completions c evs))) \<and>
      (\<forall>c. first_arrival c evs = None \<longrightarrow> completions c evs = []))"

text \<open>
  \<open>wait_time c es\<close>: the timestamp of the first completion of customer \<open>c\<close> minus the
  timestamp of its first arrival, when \<open>es\<close> has both.
\<close>

definition wait_time :: "customer \<Rightarrow> event list \<Rightarrow> int option" where
  "wait_time c es =
     (case first_arrival c es of
        None \<Rightarrow> None
      | Some a \<Rightarrow> (case first_completion c es of None \<Rightarrow> None | Some b \<Rightarrow> Some (b - a)))"

text \<open>The maximum of 0 and the wait times of the customers that arrived.\<close>

definition max_wait_of :: "event list \<Rightarrow> int" where
  "max_wait_of es = Max (set (0 # List.map_filter (\<lambda>c. wait_time c es) (arrived es)))"

text \<open>
  The invariant of the loop on its bookkeeping: the dictionary is the record of the
  history, and no completion so far came before its customer's arrival.
\<close>

definition well_kept :: "'s run_state \<Rightarrow> bool" where
  "well_kept s = (recorded (executed s) (customers s) \<and> arrivals_first [] (executed s))"

text \<open>The loop has not written \<open>max_wait\<close> or \<open>num_customers\<close> since the reset.\<close>

definition unset :: "'s run_state \<Rightarrow> bool" where
  "unset s = (max_wait (stats (sim s)) = 0 \<and> num_customers (stats (sim s)) = 0)"

section \<open>The queue removes the least pending event\<close>

lemma not_before_trans:
  "\<not> before y m \<Longrightarrow> \<not> before m r \<Longrightarrow> \<not> before y r"
  by (cases y; cases m; cases r) auto

lemma min_item_mem: "min_item m xs \<in> set (m # xs)"
  by (induction xs arbitrary: m) auto

lemma min_item_least: "y \<in> set (m # xs) \<Longrightarrow> \<not> before y (min_item m xs)"
proof (induction xs arbitrary: m y)
  case Nil
  then show ?case by (cases m) auto
next
  case (Cons x xs)
  let ?m' = "if before x m then x else m"
  have keep: "\<not> before ?m' (min_item ?m' xs)"
    using Cons.IH [of ?m' ?m'] by simp
  show ?case
  proof (cases "y \<in> set (?m' # xs)")
    case True
    then show ?thesis using Cons.IH [of y ?m'] by simp
  next
    case False
    with Cons.prems have "\<not> before y ?m'"
      by (cases x; cases m) (auto split: if_splits)
    with keep show ?thesis
      using not_before_trans [of y ?m' "min_item ?m' xs"] by simp
  qed
qed

lemma pq_pop_Inr:
  assumes "pq_pop q = Inr (m, q')"
  shows "m \<in> set (items q)" and "items q' = remove1 m (items q)"
    and "next_seq q' = next_seq q" and "\<forall>x\<in>set (items q). \<not> before x m"
    and "set (items q') \<subseteq> set (items q)"
proof -
  from assms obtain x xs where q: "items q = x # xs" and m: "m = min_item x xs"
    and q': "q' = \<lparr>items = remove1 m (items q), next_seq = next_seq q\<rparr>"
    by (auto simp: pq_pop_def Let_def split: list.splits)
  show "m \<in> set (items q)" using min_item_mem [of x xs] q m by simp
  show "items q' = remove1 m (items q)" using q' by simp
  show "next_seq q' = next_seq q" using q' by simp
  show "set (items q') \<subseteq> set (items q)"
    using q' set_remove1_subset [of m "items q"] by simp
  show "\<forall>x\<in>set (items q). \<not> before x m"
    using min_item_least [of _ x xs] q m by auto
qed

lemma pq_pop_Inl: "(pq_pop q = Inl err) = (items q = [] \<and> err = EmptyQueueError)"
  by (auto simp: pq_pop_def Let_def split: list.splits)

lemma pq_pop_nonempty: "items q \<noteq> [] \<Longrightarrow> \<exists>m q'. pq_pop q = Inr (m, q')"
  by (auto simp: pq_pop_def Let_def split: list.splits)

lemma stamped_new: "stamped pq_new"
  by (simp add: stamped_def pq_new_def)

lemma stamped_add: "stamped q \<Longrightarrow> stamped (pq_add q e)"
  by (fastforce simp: stamped_def pq_add_def)

lemma distinct_fst_remove1: "distinct (map fst xs) \<Longrightarrow> distinct (map fst (remove1 m xs))"
proof (induction xs)
  case Nil
  then show ?case by simp
next
  case (Cons x xs)
  have "fst ` set (remove1 m xs) \<subseteq> fst ` set xs"
    using set_remove1_subset [of m xs] by blast
  with Cons show ?case by auto
qed

lemma stamped_pop: "stamped q \<Longrightarrow> pq_pop q = Inr (m, q') \<Longrightarrow> stamped q'"
  using pq_pop_Inr [of q m q']
  by (auto simp: stamped_def distinct_fst_remove1)

lemma before_min_timestamp:
  "\<not> before x m \<Longrightarrow> timestamp (snd m) \<le> timestamp (snd x)"
  by (cases x; cases m) auto

lemma removed_sorted:
  "removed q ops = Inr ms \<Longrightarrow> timely q lb ops \<Longrightarrow>
   \<forall>x\<in>set (items q). above lb (timestamp (snd x)) \<Longrightarrow>
   sorted (map (\<lambda>x. timestamp (snd x)) ms) \<and> (\<forall>m\<in>set ms. above lb (timestamp (snd m)))"
proof (induction q ops arbitrary: ms lb rule: removed.induct)
  case (1 q)
  then show ?case by simp
next
  case (2 q e ops)
  have "\<forall>x\<in>set (items (pq_add q e)). above lb (timestamp (snd x))"
    using "2.prems" by (cases lb) (auto simp: pq_add_def)
  with "2.IH" [of ms lb] "2.prems" show ?case by simp
next
  case (3 q ops)
  from "3.prems"(1) obtain m q' ms' where pop: "pq_pop q = Inr (m, q')"
    and rest: "removed q' ops = Inr ms'" and ms: "ms = m # ms'"
    by (auto split: sum.splits)
  note p = pq_pop_Inr [OF pop]
  have t: "timely q' (Some (timestamp (snd m))) ops"
    using "3.prems"(2) pop by simp
  have low: "\<forall>x\<in>set (items q'). above (Some (timestamp (snd m))) (timestamp (snd x))"
    using p(4,5) before_min_timestamp by fastforce
  have ih: "sorted (map (\<lambda>x. timestamp (snd x)) ms') \<and>
      (\<forall>x\<in>set ms'. above (Some (timestamp (snd m))) (timestamp (snd x)))"
    using "3.IH" [OF pop refl rest t low] .
  have m_ok: "above lb (timestamp (snd m))" using "3.prems"(3) p(1) by blast
  have "\<forall>x\<in>set ms'. above lb (timestamp (snd x))"
    using ih m_ok by (cases lb) auto
  with ih m_ok ms show ?case by auto
qed

lemma removed_stable:
  "removed q ops = Inr ms \<Longrightarrow> stamped q \<Longrightarrow>
   sorted_wrt tie_fifo ms \<and> (\<forall>m\<in>set ms. m \<in> set (items q) \<or> next_seq q \<le> fst m)"
proof (induction q ops arbitrary: ms rule: removed.induct)
  case (1 q)
  then show ?case by simp
next
  case (2 q e ops)
  have "sorted_wrt tie_fifo ms \<and>
     (\<forall>m\<in>set ms. m \<in> set (items (pq_add q e)) \<or> next_seq (pq_add q e) \<le> fst m)"
    using "2.IH" [of ms] "2.prems" stamped_add by simp
  then show ?case by (auto simp: pq_add_def)
next
  case (3 q ops)
  from "3.prems"(1) obtain m q' ms' where pop: "pq_pop q = Inr (m, q')"
    and rest: "removed q' ops = Inr ms'" and ms: "ms = m # ms'"
    by (auto split: sum.splits)
  note p = pq_pop_Inr [OF pop]
  have st': "stamped q'" using stamped_pop [OF "3.prems"(2) pop] .
  have ih: "sorted_wrt tie_fifo ms' \<and>
     (\<forall>x\<in>set ms'. x \<in> set (items q') \<or> next_seq q' \<le> fst x)"
    using "3.IH" [OF pop refl rest st'] .
  have m_new: "fst m < next_seq q" using "3.prems"(2) p(1) by (auto simp: stamped_def)
  have first: "tie_fifo m x" if x: "x \<in> set ms'" for x
  proof (cases "x \<in> set (items q')")
    case True
    then have xq: "x \<in> set (items q)" using p(5) by blast
    then have nb: "\<not> before x m" using p(4) by blast
    have "fst x \<noteq> fst m"
    proof
      assume "fst x = fst m"
      moreover have "inj_on fst (set (items q))" and d: "distinct (items q)"
        using "3.prems"(2) by (simp_all add: stamped_def distinct_map)
      ultimately have "x = m" using xq p(1) by (simp add: inj_on_eq_iff)
      with True p(2) d show False by simp
    qed
    with nb show ?thesis by (cases x; cases m) (auto simp: tie_fifo_def)
  next
    case False
    with ih x have "next_seq q' \<le> fst x" by blast
    with m_new p(3) show ?thesis by (simp add: tie_fifo_def)
  qed
  have "\<forall>x\<in>set ms. x \<in> set (items q) \<or> next_seq q \<le> fst x"
    using ih ms p(1,3,5) by auto
  with ih first ms show ?case by auto
qed

lemma removed_logged:
  "removed q ops = Inr ms \<Longrightarrow> next_seq q = length pre \<Longrightarrow>
   \<forall>x\<in>set (items q). logged pre x \<Longrightarrow>
   \<forall>m\<in>set ms. logged (pre @ added ops) m"
proof (induction q ops arbitrary: ms pre rule: removed.induct)
  case (1 q)
  then show ?case by simp
next
  case (2 q e ops)
  have "\<forall>x\<in>set (items (pq_add q e)). logged (pre @ [e]) x"
    using "2.prems"(2,3) by (auto simp: pq_add_def nth_append)
  moreover have "next_seq (pq_add q e) = length (pre @ [e])"
    using "2.prems"(2) by (simp add: pq_add_def)
  ultimately have "\<forall>m\<in>set ms. logged ((pre @ [e]) @ added ops) m"
    using "2.IH" [of ms "pre @ [e]"] "2.prems"(1) by simp
  then show ?case by simp
next
  case (3 q ops)
  from "3.prems"(1) obtain m q' ms' where pop: "pq_pop q = Inr (m, q')"
    and rest: "removed q' ops = Inr ms'" and ms: "ms = m # ms'"
    by (auto split: sum.splits)
  note p = pq_pop_Inr [OF pop]
  have "\<forall>x\<in>set (items q'). logged pre x"
    using "3.prems"(3) p(5) by blast
  then have "\<forall>m\<in>set ms'. logged (pre @ added ops) m"
    using "3.IH" [OF pop refl rest, of pre] "3.prems"(2) p(3) by simp
  moreover have "logged (pre @ added ops) m"
    using "3.prems"(3) p(1) by (cases m) (auto simp: nth_append)
  ultimately show ?case using ms by simp
qed

section \<open>The dictionary as a function of the history\<close>

lemma first_arrival_snoc:
  "first_arrival c (es @ [e]) =
     (case first_arrival c es of Some a \<Rightarrow> Some a | None \<Rightarrow> first_arrival c [e])"
  by (induction c es rule: first_arrival.induct) auto

lemma completions_snoc: "completions c (es @ [e]) = completions c es @ completions c [e]"
  by (induction c es rule: completions.induct) auto

lemma arrived_snoc: "arrived (es @ [e]) = arrived es @ arrived [e]"
  by (induction es rule: arrived.induct) auto

lemma first_arrival_None: "(first_arrival c es = None) = (c \<notin> set (arrived es))"
  by (induction c es rule: first_arrival.induct) auto

lemma arrivals_first_snoc:
  "arrivals_first seen (es @ [e]) =
     (arrivals_first seen es \<and>
      (case e of CheckoutCompleted t c \<Rightarrow> c \<in> set seen \<or> first_arrival c es \<noteq> None
       | _ \<Rightarrow> True))"
  by (induction seen es rule: arrivals_first.induct) (auto split: event.splits)

lemma append_time_Inl: "(append_time cs c t = Inl err) = (map_of cs c = None \<and> err = KeyError)"
  by (induction cs c t rule: append_time.induct) (auto split: sum.splits)

lemma append_time_Inr:
  "append_time cs c t = Inr cs' \<Longrightarrow>
   map fst cs' = map fst cs \<and>
   (\<exists>ts. map_of cs c = Some ts \<and> map_of cs' = (map_of cs)(c \<mapsto> ts @ [t]))"
proof (induction cs c t arbitrary: cs' rule: append_time.induct)
  case (1 c t)
  then show ?case by simp
next
  case (2 k ts cs c t)
  show ?case
  proof (cases "k = c")
    case True
    with "2.prems" show ?thesis by auto
  next
    case False
    with "2.prems" obtain cs1 where a: "append_time cs c t = Inr cs1" and c: "cs' = (k, ts) # cs1"
      by (auto split: sum.splits)
    from "2.IH" [OF False a] False c show ?thesis by (auto simp: fun_eq_iff)
  qed
qed

lemma recorded_Nil: "recorded [] []"
  by (simp add: recorded_def)

lemma bookkeep_Inl:
  assumes "recorded evs cs"
  shows "(bookkeep e cs = Inl err) =
         (err = KeyError \<and> (\<exists>t c. e = CheckoutCompleted t c \<and> first_arrival c evs = None))"
  using assms
  by (cases e) (auto simp: bookkeep_def recorded_def append_time_Inl split: option.splits)

lemma bookkeep_Inr:
  assumes r: "recorded evs cs" and b: "bookkeep e cs = Inr cs'"
  shows "recorded (evs @ [e]) cs'"
proof (cases e)
  case (CustomerArrival t k)
  show ?thesis
  proof (cases "map_of cs k")
    case None
    then have cs': "cs' = cs @ [(k, [t])]" using b CustomerArrival by (simp add: bookkeep_def)
    from None have nk: "k \<notin> fst ` set cs" by (simp add: map_of_eq_None_iff)
    from None r have fa: "first_arrival k evs = None"
      by (auto simp: recorded_def split: option.splits)
    with r have ck: "completions k evs = []" by (simp add: recorded_def)
    have "map_of cs' c =
        (case first_arrival c (evs @ [e]) of None \<Rightarrow> None
         | Some a \<Rightarrow> Some (a # completions c (evs @ [e])))" for c
      using r fa ck None CustomerArrival
      by (auto simp: cs' recorded_def first_arrival_snoc completions_snoc map_add_def
          split: option.splits)
    moreover have "first_arrival c (evs @ [e]) = None \<longrightarrow> completions c (evs @ [e]) = []" for c
      using r CustomerArrival
      by (auto simp: recorded_def first_arrival_snoc completions_snoc split: option.splits if_splits)
    moreover have "distinct (map fst cs')" using r nk by (simp add: cs' recorded_def)
    ultimately show ?thesis by (simp add: recorded_def)
  next
    case (Some ts)
    then have cs': "cs' = cs" using b CustomerArrival by (simp add: bookkeep_def)
    from Some r have "first_arrival k evs \<noteq> None"
      by (auto simp: recorded_def split: option.splits)
    then show ?thesis
      using r CustomerArrival
      by (auto simp: cs' recorded_def first_arrival_snoc completions_snoc split: option.splits)
  qed
next
  case (CheckoutCompleted t k)
  then have a: "append_time cs k t = Inr cs'" using b by (simp add: bookkeep_def)
  from append_time_Inr [OF a] obtain ts where
    keys: "map fst cs' = map fst cs" and old: "map_of cs k = Some ts"
    and new: "map_of cs' = (map_of cs)(k \<mapsto> ts @ [t])" by blast
  from old r obtain a0 where fa: "first_arrival k evs = Some a0" and ts: "ts = a0 # completions k evs"
    by (auto simp: recorded_def split: option.splits)
  have "map_of cs' c =
        (case first_arrival c (evs @ [e]) of None \<Rightarrow> None
         | Some a \<Rightarrow> Some (a # completions c (evs @ [e])))" for c
    using r fa ts CheckoutCompleted
    by (auto simp: new recorded_def first_arrival_snoc completions_snoc split: option.splits)
  moreover have "first_arrival c (evs @ [e]) = None \<longrightarrow> completions c (evs @ [e]) = []" for c
    using r fa CheckoutCompleted
    by (auto simp: recorded_def first_arrival_snoc completions_snoc split: option.splits)
  moreover have "distinct (map fst cs')" using r keys by (simp add: recorded_def)
  ultimately show ?thesis by (simp add: recorded_def)
next
  case (OtherEvent t)
  then have "cs' = cs" using b by (simp add: bookkeep_def)
  then show ?thesis
    using r OtherEvent
    by (auto simp: recorded_def first_arrival_snoc completions_snoc split: option.splits)
qed

section \<open>The loop\<close>

lemma run_loop_rule:
  assumes run: "run_loop do st = Some (err, st')" and init: "I st"
    and step: "\<And>s s'. I s \<Longrightarrow> \<not> pq_is_empty (events (sim s)) \<Longrightarrow>
                 loop_body do s = (None, s') \<Longrightarrow> I s'"
    and fail: "\<And>s s' x. I s \<Longrightarrow> \<not> pq_is_empty (events (sim s)) \<Longrightarrow>
                 loop_body do s = (Some x, s') \<Longrightarrow> E x s'"
  shows "case err of None \<Rightarrow> I st' \<and> pq_is_empty (events (sim st')) | Some x \<Rightarrow> E x st'"
proof -
  define P where "P = (\<lambda>(d::'a do_fun) s (y::error option \<times> 'a run_state). d = do \<longrightarrow> I s \<longrightarrow>
        (case fst y of None \<Rightarrow> I (snd y) \<and> pq_is_empty (events (sim (snd y)))
         | Some x \<Rightarrow> E x (snd y)))"
  have "P do st (err, st')"
  proof (rule run_loop.raw_induct [OF _ run])
    fix f d s y
    assume IH: "\<And>d s y. f d s = Some y \<Longrightarrow> P d s y"
      and body: "(if pq_is_empty (events (sim s)) then Some (None, s)
          else case loop_body d s of (None, st') \<Rightarrow> f d st'
               | (Some err, st') \<Rightarrow> Some (Some err, st')) = Some y"
    show "P d s y"
      unfolding P_def
    proof (intro impI)
      assume d: "d = do" and i: "I s"
      show "case fst y of None \<Rightarrow> I (snd y) \<and> pq_is_empty (events (sim (snd y)))
            | Some x \<Rightarrow> E x (snd y)"
      proof (cases "pq_is_empty (events (sim s))")
        case True
        with body i show ?thesis by auto
      next
        case False
        obtain e s1 where b: "loop_body do s = (e, s1)" by (cases "loop_body do s")
        show ?thesis
        proof (cases e)
          case None
          with body False b d have "f do s1 = Some y" by simp
          then have "P do s1 y" by (rule IH)
          moreover have "I s1" using step [OF i False] b None by simp
          ultimately show ?thesis by (simp add: P_def)
        next
          case (Some x)
          with body False b d have "y = (Some x, s1)" by simp
          moreover have "E x s1" using fail [OF i False] b Some by simp
          ultimately show ?thesis by simp
        qed
      qed
    qed
  qed
  with init show ?thesis by (auto simp: P_def split: option.splits)
qed

lemma record_completion_error: "record_completion e cs = Inl x \<Longrightarrow> x = KeyError"
  by (cases e) (auto simp: append_time_Inl)

lemma loop_body_step:
  assumes ne: "\<not> pq_is_empty (events (sim s))" and b: "loop_body do s = (err, s')"
  obtains m q1 where "pq_pop (events (sim s)) = Inr (m, q1)"
    and "executed s' = executed s @ [snd m]"
    and "stats (sim s') = (stats (sim s))\<lparr>total_time := timestamp (snd m)\<rparr>"
    and "store (sim s') = snd (do (snd m) (store (sim s)))"
    and "events (sim s') = fold (\<lambda>n q. pq_add q n) (fst (do (snd m) (store (sim s)))) q1"
    and "case err of None \<Rightarrow> bookkeep (snd m) (customers s) = Inr (customers s')
         | Some x \<Rightarrow> x = KeyError \<and> bookkeep (snd m) (customers s) = Inl KeyError"
proof -
  from ne obtain m q1 where pop: "pq_pop (events (sim s)) = Inr (m, q1)"
    using pq_pop_nonempty [of "events (sim s)"] by (auto simp: pq_is_empty_def)
  show ?thesis
  proof (cases "bookkeep (snd m) (customers s)")
    case (Inl x)
    then have "x = KeyError" using record_completion_error by (simp add: bookkeep_def)
    with Inl pop b that [OF pop] show ?thesis
      by (auto simp: loop_body_def pq_remove_def Let_def bookkeep_def)
  next
    case (Inr cs2)
    with pop b that [OF pop] show ?thesis
      by (auto simp: loop_body_def pq_remove_def Let_def bookkeep_def)
  qed
qed

lemma well_kept_step:
  assumes "well_kept s" and "\<not> pq_is_empty (events (sim s))" and "loop_body do s = (None, s')"
  shows "well_kept s'"
proof -
  obtain m where
    ex: "executed s' = executed s @ [snd m]"
    and bk: "bookkeep (snd m) (customers s) = Inr (customers s')"
    by (rule loop_body_step [OF assms(2,3)]) auto
  have r: "recorded (executed s) (customers s)" using assms(1) by (simp add: well_kept_def)
  have "recorded (executed s') (customers s')" using bookkeep_Inr [OF r bk] ex by simp
  moreover have "\<not> (\<exists>t c. snd m = CheckoutCompleted t c \<and> first_arrival c (executed s) = None)"
    using bookkeep_Inl [OF r, of "snd m" KeyError] bk by simp
  then have "arrivals_first [] (executed s')"
    using assms(1) ex by (auto simp: well_kept_def arrivals_first_snoc split: event.splits)
  ultimately show ?thesis by (simp add: well_kept_def)
qed

lemma well_kept_fail:
  assumes "well_kept s" and "\<not> pq_is_empty (events (sim s))" and "loop_body do s = (Some x, s')"
  shows "x = KeyError \<and> \<not> arrivals_first [] (executed s')"
proof -
  obtain m where
    ex: "executed s' = executed s @ [snd m]"
    and bk: "x = KeyError \<and> bookkeep (snd m) (customers s) = Inl KeyError"
    by (rule loop_body_step [OF assms(2,3)]) auto
  have r: "recorded (executed s) (customers s)" using assms(1) by (simp add: well_kept_def)
  from bookkeep_Inl [OF r, of "snd m" KeyError] bk
  obtain t c where "snd m = CheckoutCompleted t c" and "first_arrival c (executed s) = None"
    by auto
  then show ?thesis using bk ex by (simp add: arrivals_first_snoc)
qed

lemma run_loop_kept:
  assumes "run_loop do st = Some (err, st')" and "well_kept st"
  shows "case err of None \<Rightarrow> well_kept st' \<and> pq_is_empty (events (sim st'))
         | Some x \<Rightarrow> x = KeyError \<and> \<not> arrivals_first [] (executed st')"
proof (rule run_loop_rule [OF assms(1), where I = well_kept
      and E = "\<lambda>x s. x = KeyError \<and> \<not> arrivals_first [] (executed s)"])
  show "well_kept st" by (rule assms(2))
next
  fix s s' assume "well_kept s" "\<not> pq_is_empty (events (sim s))" "loop_body do s = (None, s')"
  then show "well_kept s'" by (rule well_kept_step)
next
  fix s s' x assume "well_kept s" "\<not> pq_is_empty (events (sim s))" "loop_body do s = (Some x, s')"
  then show "x = KeyError \<and> \<not> arrivals_first [] (executed s')" by (rule well_kept_fail)
qed

section \<open>The statistics as functions of the dictionary\<close>

lemma max_time_loop_Inl:
  "(max_time_loop m cs = Inl err) = (err = IndexError \<and> (\<exists>x\<in>set cs. length (snd x) < 2))"
proof (induction m cs rule: max_time_loop.induct)
  case (1 m)
  then show ?case by simp
next
  case (2 m c ts cs)
  show ?case
  proof (cases ts)
    case Nil
    then show ?thesis by auto
  next
    case (Cons a ts')
    show ?thesis
    proof (cases ts')
      case Nil
      with Cons show ?thesis by auto
    next
      case (Cons b rest)
      with \<open>ts = a # ts'\<close> "2.IH" [of a ts' b rest "b - a"] show ?thesis
        by (auto simp: Let_def)
    qed
  qed
qed

lemma max_time_loop_Inr:
  "max_time_loop m cs = Inr r \<Longrightarrow> r = Max (set (m # map (\<lambda>x. snd x ! 1 - snd x ! 0) cs))"
proof (induction m cs rule: max_time_loop.induct)
  case (1 m)
  then show ?case by simp
next
  case (2 m c ts cs)
  from "2.prems" obtain a b rest where ts: "ts = a # b # rest"
    by (auto split: list.splits)
  let ?m' = "if m < b - a then b - a else m"
  from "2.prems" ts have "max_time_loop ?m' cs = Inr r" by (simp add: Let_def)
  then have "r = Max (set (?m' # map (\<lambda>x. snd x ! 1 - snd x ! 0) cs))"
    using "2.IH" [OF ts refl] by simp
  also have "\<dots> = Max (set (m # map (\<lambda>x. snd x ! 1 - snd x ! 0) ((c, ts) # cs)))"
  proof (cases "cs = []")
    case True
    then show ?thesis using ts by (simp add: max_def)
  next
    case False
    then have ne: "(\<lambda>x. snd x ! 1 - snd x ! 0) ` set cs \<noteq> {}" by simp
    show ?thesis using ts ne by (simp add: max_def)
  qed
  finally show ?case .
qed

lemma in_set_map_filter: "(y \<in> set (List.map_filter f xs)) = (\<exists>x\<in>set xs. f x = Some y)"
  by (induction xs) (auto split: option.splits)

lemma recorded_keys:
  assumes "recorded evs cs"
  shows "fst ` set cs = set (arrived evs)"
proof -
  have "c \<in> fst ` set cs \<longleftrightarrow> c \<in> set (arrived evs)" for c
  proof -
    have "c \<in> fst ` set cs \<longleftrightarrow> map_of cs c \<noteq> None" by (simp add: map_of_eq_None_iff)
    also have "\<dots> \<longleftrightarrow> first_arrival c evs \<noteq> None"
      using assms by (auto simp: recorded_def split: option.splits)
    also have "\<dots> \<longleftrightarrow> c \<in> set (arrived evs)" by (simp add: first_arrival_None)
    finally show ?thesis .
  qed
  then show ?thesis by blast
qed

lemma recorded_entry:
  assumes "recorded evs cs" and "(c, ts) \<in> set cs"
  shows "\<exists>a. first_arrival c evs = Some a \<and> ts = a # completions c evs"
proof -
  have d: "distinct (map fst cs)" using assms(1) by (simp add: recorded_def)
  have "map_of cs c = Some ts" by (rule map_of_is_SomeI [OF d assms(2)])
  moreover have "map_of cs c =
      (case first_arrival c evs of None \<Rightarrow> None | Some a \<Rightarrow> Some (a # completions c evs))"
    using assms(1) by (simp add: recorded_def)
  ultimately show ?thesis by (auto split: option.splits)
qed

lemma recorded_length:
  assumes "recorded evs cs"
  shows "length cs = card (set (arrived evs))"
proof -
  have "card (set (map fst cs)) = length (map fst cs)"
    using assms by (intro distinct_card) (simp add: recorded_def)
  then show ?thesis using recorded_keys [OF assms] by simp
qed

lemma first_completion_None: "(first_completion c es = None) = (completions c es = [])"
  by (simp add: first_completion_def split: list.splits)

lemma recorded_short:
  assumes "recorded evs cs"
  shows "(\<exists>x\<in>set cs. length (snd x) < 2) = (\<exists>c\<in>set (arrived evs). first_completion c evs = None)"
proof
  assume "\<exists>x\<in>set cs. length (snd x) < 2"
  then obtain c ts where in_cs: "(c, ts) \<in> set cs" and short: "length ts < 2" by auto
  from recorded_entry [OF assms in_cs] short have "completions c evs = []" by auto
  moreover have "c \<in> set (arrived evs)" using recorded_keys [OF assms] in_cs by force
  ultimately have "c \<in> set (arrived evs) \<and> first_completion c evs = None"
    by (simp add: first_completion_None)
  then show "\<exists>c\<in>set (arrived evs). first_completion c evs = None" by blast
next
  assume "\<exists>c\<in>set (arrived evs). first_completion c evs = None"
  then obtain c where c: "c \<in> set (arrived evs)" and n: "completions c evs = []"
    by (auto simp: first_completion_None)
  from c recorded_keys [OF assms] obtain ts where in_cs: "(c, ts) \<in> set cs" by force
  from recorded_entry [OF assms in_cs] n have "length ts < 2" by auto
  with in_cs show "\<exists>x\<in>set cs. length (snd x) < 2" by force
qed

lemma recorded_waits:
  assumes r: "recorded evs cs" and full: "\<forall>x\<in>set cs. \<not> length (snd x) < 2"
  shows "set (map (\<lambda>x. snd x ! 1 - snd x ! 0) cs)
       = set (List.map_filter (\<lambda>c. wait_time c evs) (arrived evs))"
proof -
  have entry: "wait_time c evs = Some (ts ! 1 - ts ! 0)" if "(c, ts) \<in> set cs" for c ts
  proof -
    from recorded_entry [OF r that] obtain a where
      a: "first_arrival c evs = Some a" and ts: "ts = a # completions c evs" by blast
    from full that ts obtain b rest where "completions c evs = b # rest"
      by (cases "completions c evs") auto
    with a ts show ?thesis by (simp add: wait_time_def first_completion_def)
  qed
  show ?thesis
  proof (intro set_eqI iffI)
    fix w assume "w \<in> set (map (\<lambda>x. snd x ! 1 - snd x ! 0) cs)"
    then obtain c ts where in_cs: "(c, ts) \<in> set cs" and w: "w = ts ! 1 - ts ! 0" by auto
    have "c \<in> set (arrived evs)" using recorded_keys [OF r] in_cs by force
    with entry [OF in_cs] w
    show "w \<in> set (List.map_filter (\<lambda>c. wait_time c evs) (arrived evs))"
      by (auto simp: in_set_map_filter)
  next
    fix w assume "w \<in> set (List.map_filter (\<lambda>c. wait_time c evs) (arrived evs))"
    then obtain c where c: "c \<in> set (arrived evs)" and w: "wait_time c evs = Some w"
      by (auto simp: in_set_map_filter)
    from c recorded_keys [OF r] obtain ts where in_cs: "(c, ts) \<in> set cs" by force
    from entry [OF in_cs] w have "w = ts ! 1 - ts ! 0" by simp
    with in_cs show "w \<in> set (map (\<lambda>x. snd x ! 1 - snd x ! 0) cs)" by force
  qed
qed

section \<open>The whole run\<close>

lemma run_trace_split:
  assumes "run_trace do s evs = Some (err, st)"
  obtains err0 st0 where
    "run_loop do \<lparr>sim = s\<lparr>stats := zero_stats,
        events := fold (\<lambda>e q. pq_add q e) evs (events s)\<rparr>, customers = [], executed = []\<rparr>
       = Some (err0, st0)"
    and "case err0 of None \<Rightarrow> finish st0 = (err, st) | Some x \<Rightarrow> err = Some x \<and> st = st0"
  using assms
  by (auto simp: run_trace_def Let_def split: option.splits prod.splits)

lemma finish_facts:
  assumes "finish st0 = (err, st)"
  shows "executed st = executed st0" and "customers st = customers st0"
    and "err \<noteq> Some KeyError" and "err \<noteq> Some EmptyQueueError"
    and "(err = Some IndexError) = (\<exists>x\<in>set (customers st0). length (snd x) < 2)"
    and "err \<noteq> None \<Longrightarrow> st = st0"
    and "err = None \<Longrightarrow>
           max_wait (stats (sim st)) = Max (set (0 # map (\<lambda>x. snd x ! 1 - snd x ! 0) (customers st0)))
         \<and> num_customers (stats (sim st)) = int (length (customers st0))
         \<and> total_time (stats (sim st)) = total_time (stats (sim st0))"
proof -
  show "executed st = executed st0" "customers st = customers st0"
    "err \<noteq> Some KeyError" "err \<noteq> Some EmptyQueueError"
    using assms max_time_loop_Inl [of 0 "customers st0"]
    by (auto simp: finish_def split: sum.splits)
  show "(err = Some IndexError) = (\<exists>x\<in>set (customers st0). length (snd x) < 2)"
    using assms max_time_loop_Inl [of 0 "customers st0" IndexError]
    by (cases "max_time_loop 0 (customers st0)") (auto simp: finish_def)
  show "err \<noteq> None \<Longrightarrow> st = st0"
    using assms by (auto simp: finish_def split: sum.splits)
  show "err = None \<Longrightarrow>
           max_wait (stats (sim st)) = Max (set (0 # map (\<lambda>x. snd x ! 1 - snd x ! 0) (customers st0)))
         \<and> num_customers (stats (sim st)) = int (length (customers st0))
         \<and> total_time (stats (sim st)) = total_time (stats (sim st0))"
    using assms max_time_loop_Inr [of 0 "customers st0"]
    by (auto simp: finish_def split: sum.splits)
qed

lemma well_kept_start: "well_kept \<lparr>sim = s0, customers = [], executed = []\<rparr>"
  by (simp add: well_kept_def recorded_Nil)

lemma run_trace_kept:
  assumes "run_trace do s evs = Some (err, st)"
  shows "if err = Some KeyError then \<not> arrivals_first [] (executed st)
         else well_kept st \<and> pq_is_empty (events (sim st))"
proof -
  from assms obtain err0 st0 where
    loop: "run_loop do \<lparr>sim = s\<lparr>stats := zero_stats,
        events := fold (\<lambda>e q. pq_add q e) evs (events s)\<rparr>, customers = [], executed = []\<rparr>
       = Some (err0, st0)"
    and fin: "case err0 of None \<Rightarrow> finish st0 = (err, st) | Some x \<Rightarrow> err = Some x \<and> st = st0"
    by (rule run_trace_split)
  note k = run_loop_kept [OF loop well_kept_start]
  show ?thesis
  proof (cases err0)
    case None
    with fin have f: "finish st0 = (err, st)" by simp
    from k None have wk: "well_kept st0" and em: "pq_is_empty (events (sim st0))" by simp_all
    have "well_kept st" using wk finish_facts(1,2) [OF f] by (simp add: well_kept_def)
    moreover have "events (sim st) = events (sim st0)"
      using f by (auto simp: finish_def split: sum.splits)
    ultimately show ?thesis using finish_facts(3) [OF f] em by simp
  next
    case (Some x)
    with fin k show ?thesis by simp
  qed
qed

section \<open>Runs in which no execution produces a successor\<close>

lemma fold_add_items:
  "map snd (items (fold (\<lambda>e q. pq_add q e) evs q)) = map snd (items q) @ evs"
  by (induction evs arbitrary: q) (simp_all add: pq_add_def)

lemma unset_step:
  assumes "unset s" and "\<not> pq_is_empty (events (sim s))" and "loop_body do s = (err, s')"
  shows "unset s'"
proof -
  obtain m where "stats (sim s') = (stats (sim s))\<lparr>total_time := timestamp (snd m)\<rparr>"
    by (rule loop_body_step [OF assms(2,3)]) auto
  with assms(1) show ?thesis by (simp add: unset_def)
qed

lemma run_loop_unset:
  assumes "run_loop do st = Some (err, st')" and "unset st"
  shows "unset st'"
proof -
  have "case err of None \<Rightarrow> unset st' \<and> pq_is_empty (events (sim st')) | Some x \<Rightarrow> unset st'"
  proof (rule run_loop_rule [OF assms(1), where I = unset and E = "\<lambda>x s. unset s"])
    show "unset st" by (rule assms(2))
  next
    fix s s' assume "unset s" "\<not> pq_is_empty (events (sim s))" "loop_body do s = (None, s')"
    then show "unset s'" by (rule unset_step)
  next
    fix s s' x assume "unset s" "\<not> pq_is_empty (events (sim s))" "loop_body do s = (Some x, s')"
    then show "unset s'" by (rule unset_step)
  qed
  then show ?thesis by (cases err) simp_all
qed

lemma quiet_if_no_successors: "no_successors do \<Longrightarrow> quiet n do cs x q"
  by (induction n arbitrary: cs x q) (auto simp: no_successors_def split: sum.splits)

lemma run_loop_store:
  assumes "run_loop do st = Some (err, st')"
    and "store (sim st) = fold (\<lambda>e x. snd (do e x)) (executed st) x0"
  shows "store (sim st') = fold (\<lambda>e x. snd (do e x)) (executed st') x0"
proof -
  let ?I = "\<lambda>s. store (sim s) = fold (\<lambda>e x. snd (do e x)) (executed s) x0"
  have step: "?I s'"
    if i: "?I s" and ne: "\<not> pq_is_empty (events (sim s))" and b: "loop_body do s = (e, s')"
    for s s' e
  proof -
    obtain m where "executed s' = executed s @ [snd m]"
      and "store (sim s') = snd (do (snd m) (store (sim s)))"
      by (rule loop_body_step [OF ne b]) auto
    with i show ?thesis by simp
  qed
  have "case err of None \<Rightarrow> ?I st' \<and> pq_is_empty (events (sim st')) | Some x \<Rightarrow> ?I st'"
  proof (rule run_loop_rule [OF assms(1), where I = ?I and E = "\<lambda>x. ?I"])
    show "?I st" by (rule assms(2))
  next
    fix s s' assume "?I s" "\<not> pq_is_empty (events (sim s))" "loop_body do s = (None, s')"
    then show "?I s'" by (rule step)
  next
    fix s s' x assume "?I s" "\<not> pq_is_empty (events (sim s))" "loop_body do s = (Some x, s')"
    then show "?I s'" by (rule step)
  qed
  then show ?thesis by (cases err) simp_all
qed

lemma run_trace_store:
  assumes "run_trace do s evs = Some (err, st)"
  shows "store (sim st) = fold (\<lambda>e x. snd (do e x)) (executed st) (store s)"
proof -
  from assms obtain err0 st0 where
    loop: "run_loop do \<lparr>sim = s\<lparr>stats := zero_stats,
        events := fold (\<lambda>e q. pq_add q e) evs (events s)\<rparr>, customers = [], executed = []\<rparr>
       = Some (err0, st0)"
    and fin: "case err0 of None \<Rightarrow> finish st0 = (err, st) | Some x \<Rightarrow> err = Some x \<and> st = st0"
    by (rule run_trace_split)
  have st0: "store (sim st0) = fold (\<lambda>e x. snd (do e x)) (executed st0) (store s)"
    by (rule run_loop_store [OF loop]) simp
  show ?thesis
  proof (cases err0)
    case None
    with fin have f: "finish st0 = (err, st)" by simp
    then have "store (sim st) = store (sim st0)"
      by (auto simp: finish_def split: sum.splits)
    with st0 finish_facts(1) [OF f] show ?thesis by simp
  next
    case (Some x)
    with fin st0 show ?thesis by simp
  qed
qed

lemma run_loop_drains:
  "length (items (events (sim st))) = n \<Longrightarrow>
   quiet n do (customers st) (store (sim st)) (events (sim st)) \<Longrightarrow>
   \<exists>err st'. run_loop do st = Some (err, st') \<and>
     (err = None \<longrightarrow>
        (\<exists>xs. executed st' = executed st @ xs
            \<and> mset xs = mset (map snd (items (events (sim st))))
            \<and> (xs \<noteq> [] \<longrightarrow> total_time (stats (sim st')) = timestamp (last xs)
                  \<and> total_time (stats (sim st')) = Max (timestamp ` set xs))))"
proof (induction n arbitrary: st)
  case 0
  then have "run_loop do st = Some (None, st)"
    by (simp add: run_loop.simps pq_is_empty_def)
  with 0 show ?case by simp
next
  case (Suc n)
  then have ne: "\<not> pq_is_empty (events (sim st))" by (auto simp: pq_is_empty_def)
  obtain e s1 where b: "loop_body do st = (e, s1)" by (cases "loop_body do st")
  obtain m q1 where pop: "pq_pop (events (sim st)) = Inr (m, q1)"
    and ex1: "executed s1 = executed st @ [snd m]"
    and st1: "stats (sim s1) = (stats (sim st))\<lparr>total_time := timestamp (snd m)\<rparr>"
    and sto1: "store (sim s1) = snd (do (snd m) (store (sim st)))"
    and ev1: "events (sim s1) = fold (\<lambda>n q. pq_add q n) (fst (do (snd m) (store (sim st)))) q1"
    and bk: "case e of None \<Rightarrow> bookkeep (snd m) (customers st) = Inr (customers s1)
             | Some x \<Rightarrow> x = KeyError \<and> bookkeep (snd m) (customers st) = Inl KeyError"
    by (rule loop_body_step [OF ne b]) blast
  note p = pq_pop_Inr [OF pop]
  have rem: "pq_remove (events (sim st)) = Inr (snd m, q1)"
    using pop by (simp add: pq_remove_def)
  have no_new: "fst (do (snd m) (store (sim st))) = []"
    using Suc.prems(2) rem by simp
  have q1: "events (sim s1) = q1" using ev1 no_new by simp
  have items1: "items (events (sim s1)) = remove1 m (items (events (sim st)))"
    using q1 p(2) by simp
  have len1: "length (items (events (sim s1))) = n"
    using items1 p(1) Suc.prems(1) by (simp add: length_remove1)
  have ms: "mset (map snd (items (events (sim st))))
            = add_mset (snd m) (mset (map snd (items (events (sim s1)))))"
  proof -
    have "mset (items (events (sim st))) = add_mset m (mset (remove1 m (items (events (sim st)))))"
      using p(1) by simp
    then have "image_mset snd (mset (items (events (sim st))))
        = image_mset snd (add_mset m (mset (remove1 m (items (events (sim st))))))"
      by simp
    then show ?thesis using items1 by simp
  qed
  show ?case
  proof (cases e)
    case (Some x)
    with b ne have "run_loop do st = Some (Some x, s1)" by (simp add: run_loop.simps)
    then show ?thesis by simp
  next
    case None
    with b ne have unf: "run_loop do st = run_loop do s1" by (simp add: run_loop.simps)
    from bk None have bk1: "bookkeep (snd m) (customers st) = Inr (customers s1)" by simp
    have quiet1: "quiet n do (customers s1) (store (sim s1)) (events (sim s1))"
      using Suc.prems(2) rem bk1 sto1 q1 by simp
    from Suc.IH [OF len1 quiet1] obtain err st' where
      r1: "run_loop do s1 = Some (err, st')"
      and rest: "err = None \<longrightarrow>
              (\<exists>xs. executed st' = executed s1 @ xs
                  \<and> mset xs = mset (map snd (items (events (sim s1))))
                  \<and> (xs \<noteq> [] \<longrightarrow> total_time (stats (sim st')) = timestamp (last xs)
                        \<and> total_time (stats (sim st')) = Max (timestamp ` set xs)))"
      by blast
    have "\<exists>xs. executed st' = executed st @ xs
                  \<and> mset xs = mset (map snd (items (events (sim st))))
                  \<and> (xs \<noteq> [] \<longrightarrow> total_time (stats (sim st')) = timestamp (last xs)
                        \<and> total_time (stats (sim st')) = Max (timestamp ` set xs))"
      if "err = None"
    proof -
      from rest that obtain xs where
        xs1: "executed st' = executed s1 @ xs"
        and xs2: "mset xs = mset (map snd (items (events (sim s1))))"
        and xs3: "xs \<noteq> [] \<longrightarrow> total_time (stats (sim st')) = timestamp (last xs)
                        \<and> total_time (stats (sim st')) = Max (timestamp ` set xs)"
        by blast
      have a: "executed st' = executed st @ (snd m # xs)" using xs1 ex1 by simp
      have b': "mset (snd m # xs) = mset (map snd (items (events (sim st))))"
        using xs2 ms by simp
      have c: "total_time (stats (sim st')) = timestamp (last (snd m # xs))
          \<and> total_time (stats (sim st')) = Max (timestamp ` set (snd m # xs))"
      proof (cases "xs = []")
        case True
        with xs2 have "items (events (sim s1)) = []" by simp
        then have "run_loop do s1 = Some (None, s1)"
          by (simp add: run_loop.simps pq_is_empty_def)
        with r1 have "st' = s1" by simp
        with st1 True show ?thesis by simp
      next
        case False
        then obtain y where y: "y \<in> set xs" by (cases xs) auto
        have "set xs = snd ` set (items (events (sim s1)))"
          using xs2 by (metis set_map set_mset_mset)
        with y obtain x where x: "x \<in> set (items (events (sim s1)))" and yx: "y = snd x" by auto
        from x q1 p(5) have "x \<in> set (items (events (sim st)))" by auto
        with p(4) have "timestamp (snd m) \<le> timestamp y"
          using before_min_timestamp yx by blast
        also have "timestamp y \<le> Max (timestamp ` set xs)" using y by simp
        finally have "max (timestamp (snd m)) (Max (timestamp ` set xs)) = Max (timestamp ` set xs)"
          by simp
        moreover have "Max (timestamp ` set (snd m # xs))
            = max (timestamp (snd m)) (Max (timestamp ` set xs))"
          using False by simp
        ultimately show ?thesis using xs3 False by simp
      qed
      from a b' c show ?thesis by blast
    qed
    with unf r1 show ?thesis by simp
  qed
qed

lemma length_fold_add:
  "length (items (fold (\<lambda>e q. pq_add q e) evs q)) = length (items q) + length evs"
  by (induction evs arbitrary: q) (simp_all add: pq_add_def)

lemma run_trace_quiet:
  assumes em: "pq_is_empty (events s)" and qr: "quiet_run do s evs"
  shows "\<exists>err st. run_trace do s evs = Some (err, st) \<and>
           (err \<noteq> Some KeyError \<longrightarrow>
              mset (executed st) = mset evs \<and>
              (evs \<noteq> [] \<longrightarrow> total_time (stats (sim st)) = Max (timestamp ` set evs)
                   \<and> total_time (stats (sim st)) = timestamp (last (executed st))))"
proof -
  let ?start = "\<lparr>sim = s\<lparr>stats := zero_stats,
        events := fold (\<lambda>e q. pq_add q e) evs (events s)\<rparr>, customers = [], executed = []\<rparr>"
  have its: "map snd (items (events (sim ?start))) = evs"
    using em fold_add_items [of evs "events s"] by (simp add: pq_is_empty_def)
  have len: "length (items (events (sim ?start))) = length evs"
    using em length_fold_add [of evs "events s"] by (simp add: pq_is_empty_def)
  have q0: "quiet (length evs) do (customers ?start) (store (sim ?start)) (events (sim ?start))"
    using qr by (simp add: quiet_run_def)
  from run_loop_drains [OF len q0] obtain err0 st0 where
    loop: "run_loop do ?start = Some (err0, st0)"
    and rest: "err0 = None \<longrightarrow>
              (\<exists>xs. executed st0 = executed ?start @ xs
                  \<and> mset xs = mset (map snd (items (events (sim ?start))))
                  \<and> (xs \<noteq> [] \<longrightarrow> total_time (stats (sim st0)) = timestamp (last xs)
                        \<and> total_time (stats (sim st0)) = Max (timestamp ` set xs)))"
    by blast
  note k = run_loop_kept [OF loop well_kept_start]
  show ?thesis
  proof (cases err0)
    case (Some x)
    with k have "x = KeyError" by simp
    with Some loop have "run_trace do s evs = Some (Some KeyError, st0)"
      by (simp add: run_trace_def Let_def)
    then show ?thesis by simp
  next
    case None
    obtain err st where f: "finish st0 = (err, st)" by (cases "finish st0")
    with None loop have r: "run_trace do s evs = Some (err, st)"
      by (simp add: run_trace_def Let_def)
    from rest None obtain xs where x1: "executed st0 = executed ?start @ xs"
      and x2: "mset xs = mset (map snd (items (events (sim ?start))))"
      and x3: "xs \<noteq> [] \<longrightarrow> total_time (stats (sim st0)) = timestamp (last xs)
                        \<and> total_time (stats (sim st0)) = Max (timestamp ` set xs)"
      by blast
    have x4: "executed st0 = xs" using x1 by simp
    have ms: "mset (executed st0) = mset evs" using x2 x4 unfolding its by simp
    have tt: "executed st0 \<noteq> [] \<longrightarrow> total_time (stats (sim st0)) = timestamp (last (executed st0))
                        \<and> total_time (stats (sim st0)) = Max (timestamp ` set (executed st0))"
      using x3 unfolding x4 .
    have tot: "total_time (stats (sim st)) = total_time (stats (sim st0))"
      using finish_facts(6,7) [OF f] by (cases err) auto
    have ex: "executed st = executed st0" by (rule finish_facts(1) [OF f])
    have se: "set (executed st0) = set evs" using ms by (metis set_mset_mset)
    have "evs \<noteq> [] \<longrightarrow> executed st0 \<noteq> []" using ms by auto
    with tt tot ex se ms have
      "mset (executed st) = mset evs \<and>
       (evs \<noteq> [] \<longrightarrow> total_time (stats (sim st)) = Max (timestamp ` set evs)
            \<and> total_time (stats (sim st)) = timestamp (last (executed st)))"
      by auto
    with r show ?thesis by blast
  qed
qed

lemma run_trace_unset:
  assumes "run_trace do s evs = Some (Some x, st)"
  shows "max_wait (stats (sim st)) = 0 \<and> num_customers (stats (sim st)) = 0"
proof -
  from assms obtain err0 st0 where
    loop: "run_loop do \<lparr>sim = s\<lparr>stats := zero_stats,
        events := fold (\<lambda>e q. pq_add q e) evs (events s)\<rparr>, customers = [], executed = []\<rparr>
       = Some (err0, st0)"
    and fin: "case err0 of None \<Rightarrow> finish st0 = (Some x, st) | Some y \<Rightarrow> Some x = Some y \<and> st = st0"
    by (rule run_trace_split)
  have "unset st0"
    by (rule run_loop_unset [OF loop]) (simp add: unset_def zero_stats_def)
  moreover have "st = st0"
    using fin finish_facts(6) [of st0 "Some x" st] by (cases err0) simp_all
  ultimately show ?thesis by (simp add: unset_def)
qed

text \<open>The equations that evaluate a run on given events.\<close>

lemmas run_eval = run_def run_trace_def run_loop.simps finish_def zero_stats_def init_def
  pq_new_def pq_is_empty_def pq_add_def loop_body_def pq_remove_def pq_pop_def Let_def

section \<open>The order of removal\<close>

text \<open>
  C1, as the claim states it, fails: the removed events need not be non-decreasing by
  timestamp when calls of \<open>add\<close> and \<open>remove\<close> are interleaved. After \<open>add\<close> of an
  event at time 5 and a \<open>remove\<close>, an event added at time 3 is removed second.
\<close>

theorem removed_interleaved_counterexample:
  "removed pq_new [Add (OtherEvent 5), Remove, Add (OtherEvent 3), Remove]
     = Inr [(0, OtherEvent 5), (1, OtherEvent 3)]
   \<and> \<not> sorted (map (\<lambda>x. timestamp (snd x)) [(0::nat, OtherEvent 5), (1, OtherEvent 3)])"
  by (simp add: pq_new_def pq_add_def pq_pop_def)

text \<open>
  C1, amended: for any sequence of \<open>add\<close> calls interleaved with \<open>remove\<close> calls on a
  new queue, in which no \<open>remove\<close> fails, (1) if no event is added with a timestamp below
  that of an event already removed, the sequence of removed events is non-decreasing by
  timestamp; (2) of two removed events with equal timestamps, the one removed earlier has
  the smaller stamp; and (3) the stamp of a removed event is the number of \<open>add\<close> calls
  before the one that added it, so a smaller stamp is an earlier \<open>add\<close>.
\<close>

theorem removed_order:
  assumes "removed pq_new ops = Inr ms"
  shows "(timely pq_new None ops \<longrightarrow> sorted (map (\<lambda>x. timestamp (snd x)) ms))
       \<and> sorted_wrt tie_fifo ms
       \<and> list_all (logged (added ops)) ms"
proof -
  have "timely pq_new None ops \<Longrightarrow> sorted (map (\<lambda>x. timestamp (snd x)) ms)"
    using removed_sorted [OF assms, of None] by (simp add: pq_new_def)
  moreover have "sorted_wrt tie_fifo ms"
    using removed_stable [OF assms stamped_new] by simp
  moreover have "\<forall>m\<in>set ms. logged (added ops) m"
    using removed_logged [OF assms, of "[]"] by (simp add: pq_new_def)
  ultimately show ?thesis by (simp add: list_all_iff)
qed

theorem removed_order_witness:
  "removed pq_new [Add (OtherEvent 5), Add (CustomerArrival 3 ''A''), Add (OtherEvent 3),
                   Remove, Add (OtherEvent 4), Remove, Remove, Remove]
     = Inr [(1, CustomerArrival 3 ''A''), (2, OtherEvent 3), (3, OtherEvent 4), (0, OtherEvent 5)]
   \<and> timely pq_new None [Add (OtherEvent 5), Add (CustomerArrival 3 ''A''), Add (OtherEvent 3),
                   Remove, Add (OtherEvent 4), Remove, Remove, Remove]
   \<and> sorted (map (\<lambda>x. timestamp (snd x))
        [(1::nat, CustomerArrival 3 ''A''), (2, OtherEvent 3), (3, OtherEvent 4), (0, OtherEvent 5)])
   \<and> sorted_wrt tie_fifo
        [(1, CustomerArrival 3 ''A''), (2, OtherEvent 3), (3, OtherEvent 4), (0, OtherEvent 5)]
   \<and> list_all (logged [OtherEvent 5, CustomerArrival 3 ''A'', OtherEvent 3, OtherEvent 4])
        [(1, CustomerArrival 3 ''A''), (2, OtherEvent 3), (3, OtherEvent 4), (0, OtherEvent 5)]"
proof -
  have r: "removed pq_new [Add (OtherEvent 5), Add (CustomerArrival 3 ''A''), Add (OtherEvent 3),
                   Remove, Add (OtherEvent 4), Remove, Remove, Remove]
     = Inr [(1, CustomerArrival 3 ''A''), (2, OtherEvent 3), (3, OtherEvent 4), (0, OtherEvent 5)]"
    by (simp add: pq_new_def pq_add_def pq_pop_def)
  have t: "timely pq_new None [Add (OtherEvent 5), Add (CustomerArrival 3 ''A''),
                   Add (OtherEvent 3), Remove, Add (OtherEvent 4), Remove, Remove, Remove]"
    by (simp add: pq_new_def pq_add_def pq_pop_def)
  show ?thesis using removed_order [OF r] r t by simp
qed

section \<open>Runs on given events\<close>

text \<open>
  C2: on a driver with nothing pending, when executing an event produces no successor
  events, running the simulation on arrival(A, 0), completion(A, 5), arrival(B, 2),
  completion(B, 4) returns with \<open>num_customers = 2\<close>, \<open>total_time = 5\<close> and
  \<open>max_wait = 5\<close>.
\<close>

theorem run_example_stats:
  assumes "no_successors do" and "pq_is_empty (events s)"
  shows "\<exists>s'. run do s [CustomerArrival 0 ''A'', CheckoutCompleted 5 ''A'',
                       CustomerArrival 2 ''B'', CheckoutCompleted 4 ''B''] = Some (None, s')
       \<and> stats s' = \<lparr>num_customers = 2, total_time = 5, max_wait = 5\<rparr>"
  using assms
  by (simp add: run_def run_trace_def run_loop.simps finish_def zero_stats_def no_successors_def
      pq_is_empty_def pq_add_def loop_body_def pq_remove_def pq_pop_def Let_def)

theorem run_example_stats_witness:
  "no_successors (\<lambda>e (s::unit). ([], s)) \<and> pq_is_empty (events (init ()))
   \<and> (\<exists>s'. run (\<lambda>e s. ([], s)) (init ())
               [CustomerArrival 0 ''A'', CheckoutCompleted 5 ''A'',
                CustomerArrival 2 ''B'', CheckoutCompleted 4 ''B''] = Some (None, s')
          \<and> stats s' = \<lparr>num_customers = 2, total_time = 5, max_wait = 5\<rparr>)"
proof -
  have n: "no_successors (\<lambda>e (s::unit). ([], s))" by (simp add: no_successors_def)
  have e: "pq_is_empty (events (init ()))" by (simp add: init_def pq_new_def pq_is_empty_def)
  show ?thesis using run_example_stats [OF n e] n e by simp
qed

text \<open>
  C6: calling \<open>run\<close> with an empty list of initial events, on a driver with nothing
  pending (as it is when constructed and after every run that has returned), returns with
  \<open>num_customers = 0\<close>, \<open>total_time = 0\<close> and \<open>max_wait = 0\<close>, the rest of the driver
  unchanged.
\<close>

theorem run_empty:
  "pq_is_empty (events s) \<Longrightarrow> run do s [] = Some (None, s\<lparr>stats := zero_stats\<rparr>)"
  by (simp add: run_def run_trace_def run_loop.simps finish_def zero_stats_def)

theorem run_empty_witness:
  "pq_is_empty (events (init ()))
   \<and> run (\<lambda>e s. ([], s)) (init ()) []
       = Some (None, \<lparr>events = pq_new, store = (),
                      stats = \<lparr>num_customers = 0, total_time = 0, max_wait = 0\<rparr>\<rparr>)"
  using run_empty [of "init ()" "\<lambda>e s. ([], s)"]
  by (simp add: init_def pq_is_empty_def pq_new_def zero_stats_def)

text \<open>
  C7: \<open>run\<close> does not depend on the statistics held before the call. It first resets the
  three fields to zero, so two runs of the same events from drivers that differ only in
  their statistics give the same result: the same exception or none, and the same driver
  with the same statistics afterwards.
\<close>

theorem run_resets_stats:
  "run do (s\<lparr>stats := x\<rparr>) initial_events = run do (s\<lparr>stats := zero_stats\<rparr>) initial_events
   \<and> run do (s\<lparr>stats := x\<rparr>) initial_events = run do (s\<lparr>stats := y\<rparr>) initial_events"
  by (simp add: run_def run_trace_def)

theorem run_resets_stats_witness:
  "run (\<lambda>e s. ([], s)) ((init ())\<lparr>stats := \<lparr>num_customers = 7, total_time = 9, max_wait = 4\<rparr>\<rparr>)
       [CustomerArrival 1 ''A'', CheckoutCompleted 3 ''A'']
   = Some (None, \<lparr>events = \<lparr>items = [], next_seq = 2\<rparr>, store = (),
                  stats = \<lparr>num_customers = 1, total_time = 3, max_wait = 2\<rparr>\<rparr>)"
proof -
  have "run (\<lambda>e s. ([], s)) ((init ())\<lparr>stats := zero_stats\<rparr>)
       [CustomerArrival 1 ''A'', CheckoutCompleted 3 ''A'']
   = Some (None, \<lparr>events = \<lparr>items = [], next_seq = 2\<rparr>, store = (),
                  stats = \<lparr>num_customers = 1, total_time = 3, max_wait = 2\<rparr>\<rparr>)"
    by (simp add: run_def run_trace_def run_loop.simps finish_def zero_stats_def init_def
        pq_new_def pq_is_empty_def pq_add_def loop_body_def pq_remove_def pq_pop_def Let_def)
  then show ?thesis
    using run_resets_stats [where s = "init ()"
        and x = "\<lparr>num_customers = 7, total_time = 9, max_wait = 4\<rparr>"]
    by simp
qed

section \<open>Customers that never complete\<close>

text \<open>
  C3, as the claim states it, fails: a customer with an arrival and no checkout
  completion is not excluded from the maximum, and the computation of the statistics
  raises. With arrival(A, 0), arrival(B, 1), completion(B, 4), line 86 reads
  \<open>customers[A][1]\<close> from a list of length one: \<open>run\<close> raises an index error and leaves
  \<open>max_wait\<close> at 0, although B waited 3.
\<close>

theorem run_unfinished_customer_counterexample:
  "run (\<lambda>e s. ([], s)) (init ())
       [CustomerArrival 0 ''A'', CustomerArrival 1 ''B'', CheckoutCompleted 4 ''B'']
   = Some (Some IndexError,
           \<lparr>events = \<lparr>items = [], next_seq = 3\<rparr>, store = (),
            stats = \<lparr>num_customers = 0, total_time = 4, max_wait = 0\<rparr>\<rparr>)"
  by (simp add: run_eval)

text \<open>
  C3, amended: for every run that returns and does not fail on a completion without an
  arrival, the computation of the statistics raises an index error exactly when some
  customer has an arrival event and no checkout-completion event; such a customer is not
  excluded, and \<open>max_wait\<close> and \<open>num_customers\<close> then keep the value 0 of the reset.
  \<open>max_wait\<close> is 0 if no customer has both an arrival and a completion.
\<close>

theorem run_unfinished_customer:
  assumes "run_trace do s initial_events = Some (err, st)" and "err \<noteq> Some KeyError"
  shows "(err = Some IndexError)
           = list_ex (\<lambda>c. first_completion c (executed st) = None) (arrived (executed st))
       \<and> (err = Some IndexError \<longrightarrow>
             max_wait (stats (sim st)) = 0 \<and> num_customers (stats (sim st)) = 0)
       \<and> (list_all (\<lambda>c. wait_time c (executed st) = None) (arrived (executed st)) \<longrightarrow>
             max_wait (stats (sim st)) = 0)"
proof -
  from assms(1) obtain err0 st0 where
    loop: "run_loop do \<lparr>sim = s\<lparr>stats := zero_stats,
        events := fold (\<lambda>e q. pq_add q e) initial_events (events s)\<rparr>,
        customers = [], executed = []\<rparr> = Some (err0, st0)"
    and fin: "case err0 of None \<Rightarrow> finish st0 = (err, st) | Some x \<Rightarrow> err = Some x \<and> st = st0"
    by (rule run_trace_split)
  note k = run_loop_kept [OF loop well_kept_start]
  from k fin assms(2) have f: "finish st0 = (err, st)" by (cases err0) auto
  from run_trace_kept [OF assms(1)] assms(2)
  have r: "recorded (executed st) (customers st)" by (simp add: well_kept_def)
  have cs: "customers st = customers st0" by (rule finish_facts(2) [OF f])
  have a: "(err = Some IndexError)
           = list_ex (\<lambda>c. first_completion c (executed st) = None) (arrived (executed st))"
    using finish_facts(5) [OF f] recorded_short [OF r] cs by (simp add: list_ex_iff)
  have b: "err = Some IndexError \<longrightarrow>
             max_wait (stats (sim st)) = 0 \<and> num_customers (stats (sim st)) = 0"
    using run_trace_unset [of do s initial_events IndexError st] assms(1) by simp
  have c: "max_wait (stats (sim st)) = 0"
    if none: "list_all (\<lambda>c. wait_time c (executed st) = None) (arrived (executed st))"
  proof (cases err)
    case (Some x)
    with run_trace_unset [of do s initial_events x st] assms(1) show ?thesis by simp
  next
    case None
    have full: "\<forall>x\<in>set (customers st). \<not> length (snd x) < 2"
      using finish_facts(5) [OF f] cs None by simp
    have "max_wait (stats (sim st)) = Max (set (0 # map (\<lambda>x. snd x ! 1 - snd x ! 0) (customers st)))"
      using finish_facts(7) [OF f] cs None by simp
    also have "\<dots> = Max (set (0 # List.map_filter (\<lambda>c. wait_time c (executed st))
                                    (arrived (executed st))))"
      using recorded_waits [OF r full] by simp
    also have "List.map_filter (\<lambda>c. wait_time c (executed st)) (arrived (executed st)) = []"
    proof (rule ccontr)
      assume "List.map_filter (\<lambda>c. wait_time c (executed st)) (arrived (executed st)) \<noteq> []"
      then obtain y where
        "y \<in> set (List.map_filter (\<lambda>c. wait_time c (executed st)) (arrived (executed st)))"
        by (cases "List.map_filter (\<lambda>c. wait_time c (executed st)) (arrived (executed st))") auto
      then obtain c where "c \<in> set (arrived (executed st))" and "wait_time c (executed st) = Some y"
        unfolding in_set_map_filter by blast
      with none show False by (simp add: list_all_iff)
    qed
    finally show ?thesis by simp
  qed
  from a b c show ?thesis by blast
qed

theorem run_unfinished_customer_witness:
  "run_trace (\<lambda>e s. ([], s)) (init ())
       [CustomerArrival 0 ''A'', CustomerArrival 1 ''B'', CheckoutCompleted 4 ''B'']
   = Some (Some IndexError,
       \<lparr>sim = \<lparr>events = \<lparr>items = [], next_seq = 3\<rparr>, store = (),
               stats = \<lparr>num_customers = 0, total_time = 4, max_wait = 0\<rparr>\<rparr>,
        customers = [(''A'', [0]), (''B'', [1, 4])],
        executed = [CustomerArrival 0 ''A'', CustomerArrival 1 ''B'', CheckoutCompleted 4 ''B'']\<rparr>)
   \<and> Some IndexError \<noteq> Some KeyError
   \<and> list_ex (\<lambda>c. first_completion c
          [CustomerArrival 0 ''A'', CustomerArrival 1 ''B'', CheckoutCompleted 4 ''B''] = None)
        (arrived [CustomerArrival 0 ''A'', CustomerArrival 1 ''B'', CheckoutCompleted 4 ''B''])"
proof -
  have r: "run_trace (\<lambda>e s. ([], s)) (init ())
       [CustomerArrival 0 ''A'', CustomerArrival 1 ''B'', CheckoutCompleted 4 ''B'']
   = Some (Some IndexError,
       \<lparr>sim = \<lparr>events = \<lparr>items = [], next_seq = 3\<rparr>, store = (),
               stats = \<lparr>num_customers = 0, total_time = 4, max_wait = 0\<rparr>\<rparr>,
        customers = [(''A'', [0]), (''B'', [1, 4])],
        executed = [CustomerArrival 0 ''A'', CustomerArrival 1 ''B'', CheckoutCompleted 4 ''B'']\<rparr>)"
    by (simp add: run_eval)
  show ?thesis using run_unfinished_customer [OF r] r by simp
qed

section \<open>Counting customers\<close>

text \<open>
  C4, as the claim states it, fails: a run with two arrival events for the same customer
  need not count that customer at all. With arrival(A, 0), arrival(A, 3) the customer
  never completes, line 86 raises an index error, and line 90, which assigns
  \<open>num_customers\<close>, is not reached: \<open>num_customers\<close> is 0, not 1.
\<close>

theorem run_duplicate_arrival_counterexample:
  "run (\<lambda>e s. ([], s)) (init ()) [CustomerArrival 0 ''A'', CustomerArrival 3 ''A'']
   = Some (Some IndexError,
           \<lparr>events = \<lparr>items = [], next_seq = 2\<rparr>, store = (),
            stats = \<lparr>num_customers = 0, total_time = 3, max_wait = 0\<rparr>\<rparr>)"
  by (simp add: run_eval)

text \<open>
  C4, amended: for every run that returns and does not stop at a completion without an
  arrival, each customer among the arrival events executed is recorded exactly once, however
  many arrival events it has, and its recorded arrival timestamp is that of its first
  arrival executed (first arrival wins). \<open>num_customers\<close> is the number of those distinct
  customers when the run returns without an exception, and keeps the value 0 of the reset
  when the run raises.
\<close>

theorem run_counts_customer_once:
  assumes "run_trace do s initial_events = Some (err, st)" and "err \<noteq> Some KeyError"
  shows "distinct (map fst (customers st))
       \<and> set (map fst (customers st)) = set (arrived (executed st))
       \<and> list_all (\<lambda>c. \<exists>a rest. map_of (customers st) c = Some (a # rest)
                        \<and> first_arrival c (executed st) = Some a) (arrived (executed st))
       \<and> (err = None \<longrightarrow>
             num_customers (stats (sim st)) = int (card (set (arrived (executed st)))))
       \<and> (err \<noteq> None \<longrightarrow> num_customers (stats (sim st)) = 0)"
proof -
  from assms(1) obtain err0 st0 where
    loop: "run_loop do \<lparr>sim = s\<lparr>stats := zero_stats,
        events := fold (\<lambda>e q. pq_add q e) initial_events (events s)\<rparr>,
        customers = [], executed = []\<rparr> = Some (err0, st0)"
    and fin: "case err0 of None \<Rightarrow> finish st0 = (err, st) | Some x \<Rightarrow> err = Some x \<and> st = st0"
    by (rule run_trace_split)
  note k = run_loop_kept [OF loop well_kept_start]
  from k fin assms(2) have f: "finish st0 = (err, st)" by (cases err0) auto
  from run_trace_kept [OF assms(1)] assms(2)
  have r: "recorded (executed st) (customers st)" by (simp add: well_kept_def)
  have d: "distinct (map fst (customers st))" using r by (simp add: recorded_def)
  have keys: "set (map fst (customers st)) = set (arrived (executed st))"
    using recorded_keys [OF r] by simp
  have first: "\<exists>a rest. map_of (customers st) c = Some (a # rest)
      \<and> first_arrival c (executed st) = Some a"
    if "c \<in> set (arrived (executed st))" for c
  proof -
    from that have "first_arrival c (executed st) \<noteq> None" by (simp add: first_arrival_None)
    then show ?thesis using r by (auto simp: recorded_def)
  qed
  have n: "num_customers (stats (sim st)) = int (card (set (arrived (executed st))))"
    if "err = None"
  proof -
    have "num_customers (stats (sim st)) = int (length (customers st))"
      using finish_facts(7) [OF f] finish_facts(2) [OF f] that by simp
    then show ?thesis using recorded_length [OF r] by simp
  qed
  have z: "num_customers (stats (sim st)) = 0" if "err \<noteq> None"
  proof -
    from that obtain x where "err = Some x" by (cases err) auto
    with run_trace_unset [of do s initial_events x st] assms(1) show ?thesis by simp
  qed
  from d keys first n z show ?thesis by (simp add: list_all_iff)
qed

theorem run_counts_customer_once_witness:
  "run_trace (\<lambda>e s. ([], s)) (init ())
       [CustomerArrival 0 ''A'', CustomerArrival 3 ''A'', CheckoutCompleted 5 ''A'']
   = Some (None,
       \<lparr>sim = \<lparr>events = \<lparr>items = [], next_seq = 3\<rparr>, store = (),
               stats = \<lparr>num_customers = 1, total_time = 5, max_wait = 5\<rparr>\<rparr>,
        customers = [(''A'', [0, 5])],
        executed = [CustomerArrival 0 ''A'', CustomerArrival 3 ''A'', CheckoutCompleted 5 ''A'']\<rparr>)
   \<and> None \<noteq> Some KeyError
   \<and> int (card (set (arrived
        [CustomerArrival 0 ''A'', CustomerArrival 3 ''A'', CheckoutCompleted 5 ''A'']))) = 1
   \<and> first_arrival ''A''
        [CustomerArrival 0 ''A'', CustomerArrival 3 ''A'', CheckoutCompleted 5 ''A''] = Some 0"
proof -
  have r: "run_trace (\<lambda>e s. ([], s)) (init ())
       [CustomerArrival 0 ''A'', CustomerArrival 3 ''A'', CheckoutCompleted 5 ''A'']
   = Some (None,
       \<lparr>sim = \<lparr>events = \<lparr>items = [], next_seq = 3\<rparr>, store = (),
               stats = \<lparr>num_customers = 1, total_time = 5, max_wait = 5\<rparr>\<rparr>,
        customers = [(''A'', [0, 5])],
        executed = [CustomerArrival 0 ''A'', CustomerArrival 3 ''A'', CheckoutCompleted 5 ''A'']\<rparr>)"
    by (simp add: run_eval)
  show ?thesis using run_counts_customer_once [OF r] r by simp
qed

section \<open>Every event once\<close>

text \<open>
  C5, as the claim states it, fails: a run whose executions produce no successor events
  need not execute all its N initial events. With completion(A, 1) and two other events
  at 2 and 3, and a \<open>do\<close> that counts its calls in the store, line 83 raises a key error
  in the first pass: \<open>do\<close> has been called once, not three times, and \<open>total_time\<close> is 1,
  not 3.
\<close>

theorem run_stopped_early_counterexample:
  "pq_is_empty (events (init (0::nat)))
   \<and> quiet_run (\<lambda>e n. ([], Suc n)) (init 0) [CheckoutCompleted 1 ''A'', OtherEvent 2, OtherEvent 3]
   \<and> run_trace (\<lambda>e n. ([], Suc n)) (init 0) [CheckoutCompleted 1 ''A'', OtherEvent 2, OtherEvent 3]
     = Some (Some KeyError,
       \<lparr>sim = \<lparr>events = \<lparr>items = [(1, OtherEvent 2), (2, OtherEvent 3)], next_seq = 3\<rparr>,
               store = Suc 0,
               stats = \<lparr>num_customers = 0, total_time = 1, max_wait = 0\<rparr>\<rparr>,
        customers = [], executed = [CheckoutCompleted 1 ''A'']\<rparr>)"
  by (simp add: run_eval quiet_run_def bookkeep_def)

text \<open>
  C5, amended: for every run with N initial events none of whose executions produce
  successor events, on a driver with nothing pending, the run returns or raises, and \<open>do\<close>
  has been called once on each event executed, in the order of execution. Unless the run
  stops at a completion without an arrival, exactly N events are executed, each initial
  event once, and, for N > 0, \<open>total_time\<close> is the maximum timestamp among the initial
  events, which is the timestamp of the last event executed.
\<close>

theorem run_executes_each_event_once:
  assumes "pq_is_empty (events s)" and "quiet_run do s initial_events"
  shows "\<exists>err st. run_trace do s initial_events = Some (err, st) \<and>
           store (sim st) = fold (\<lambda>e x. snd (do e x)) (executed st) (store s) \<and>
           (err \<noteq> Some KeyError \<longrightarrow>
              length (executed st) = length initial_events \<and>
              mset (executed st) = mset initial_events \<and>
              (initial_events \<noteq> [] \<longrightarrow>
                 total_time (stats (sim st)) = Max (timestamp ` set initial_events) \<and>
                 total_time (stats (sim st)) = timestamp (last (executed st))))"
proof -
  from run_trace_quiet [OF assms] obtain err st where
    r: "run_trace do s initial_events = Some (err, st)"
    and rest: "err \<noteq> Some KeyError \<longrightarrow>
              mset (executed st) = mset initial_events \<and>
              (initial_events \<noteq> [] \<longrightarrow>
                 total_time (stats (sim st)) = Max (timestamp ` set initial_events) \<and>
                 total_time (stats (sim st)) = timestamp (last (executed st)))"
    by blast
  have "length (executed st) = length initial_events" if "err \<noteq> Some KeyError"
    using rest that mset_eq_length by blast
  with r rest run_trace_store [OF r] show ?thesis by blast
qed

theorem run_executes_each_event_once_witness:
  "pq_is_empty (events (init (0::nat)))
   \<and> quiet_run (\<lambda>e n. ([], Suc n)) (init 0)
        [OtherEvent 7, CustomerArrival 2 ''A'', CheckoutCompleted 7 ''A'']
   \<and> run_trace (\<lambda>e n. ([], Suc n)) (init 0)
        [OtherEvent 7, CustomerArrival 2 ''A'', CheckoutCompleted 7 ''A'']
     = Some (None,
       \<lparr>sim = \<lparr>events = \<lparr>items = [], next_seq = 3\<rparr>, store = 3,
               stats = \<lparr>num_customers = 1, total_time = 7, max_wait = 5\<rparr>\<rparr>,
        customers = [(''A'', [2, 7])],
        executed = [CustomerArrival 2 ''A'', OtherEvent 7, CheckoutCompleted 7 ''A'']\<rparr>)
   \<and> fold (\<lambda>e x. snd ([]::event list, Suc x))
        [CustomerArrival 2 ''A'', OtherEvent 7, CheckoutCompleted 7 ''A''] 0 = 3
   \<and> length [CustomerArrival 2 ''A'', OtherEvent 7, CheckoutCompleted 7 ''A''] = 3
   \<and> Max (timestamp ` set [OtherEvent 7, CustomerArrival 2 ''A'', CheckoutCompleted 7 ''A'']) = 7"
proof -
  have e: "pq_is_empty (events (init (0::nat)))"
    by (simp add: init_def pq_new_def pq_is_empty_def)
  have q: "quiet_run (\<lambda>e n. ([], Suc n)) (init 0)
        [OtherEvent 7, CustomerArrival 2 ''A'', CheckoutCompleted 7 ''A'']"
    by (simp add: run_eval quiet_run_def bookkeep_def)
  have r: "run_trace (\<lambda>e n. ([], Suc n)) (init 0)
        [OtherEvent 7, CustomerArrival 2 ''A'', CheckoutCompleted 7 ''A'']
     = Some (None,
       \<lparr>sim = \<lparr>events = \<lparr>items = [], next_seq = 3\<rparr>, store = 3,
               stats = \<lparr>num_customers = 1, total_time = 7, max_wait = 5\<rparr>\<rparr>,
        customers = [(''A'', [2, 7])],
        executed = [CustomerArrival 2 ''A'', OtherEvent 7, CheckoutCompleted 7 ''A'']\<rparr>)"
    by (simp add: run_eval)
  show ?thesis using run_executes_each_event_once [OF e q] e q r by simp
qed

section \<open>The guard of the loop\<close>

text \<open>
  C8: \<open>remove\<close> fails on the empty queue and only there, and the loop of \<open>run\<close> calls it
  only after \<open>is_empty\<close> has returned false: no run ends in the empty-queue failure.
\<close>

theorem run_never_removes_from_empty:
  "(pq_is_empty q \<longrightarrow> pq_remove q = Inl EmptyQueueError)
   \<and> (\<not> pq_is_empty q \<longrightarrow> (\<exists>e q'. pq_remove q = Inr (e, q')))
   \<and> (run do s initial_events = Some (err, s') \<longrightarrow> err \<noteq> Some EmptyQueueError)"
proof (intro conjI impI)
  assume "pq_is_empty q"
  then show "pq_remove q = Inl EmptyQueueError"
    by (simp add: pq_is_empty_def pq_remove_def pq_pop_def)
next
  assume "\<not> pq_is_empty q"
  then show "\<exists>e q'. pq_remove q = Inr (e, q')"
    using pq_pop_nonempty [of q] by (auto simp: pq_is_empty_def pq_remove_def)
next
  assume "run do s initial_events = Some (err, s')"
  then obtain st where r: "run_trace do s initial_events = Some (err, st)"
    by (auto simp: run_def)
  from r obtain err0 st0 where
    loop: "run_loop do \<lparr>sim = s\<lparr>stats := zero_stats,
        events := fold (\<lambda>e q. pq_add q e) initial_events (events s)\<rparr>,
        customers = [], executed = []\<rparr> = Some (err0, st0)"
    and fin: "case err0 of None \<Rightarrow> finish st0 = (err, st) | Some x \<Rightarrow> err = Some x \<and> st = st0"
    by (rule run_trace_split)
  note k = run_loop_kept [OF loop well_kept_start]
  show "err \<noteq> Some EmptyQueueError"
  proof (cases err0)
    case None
    with fin finish_facts(4) show ?thesis by simp
  next
    case (Some x)
    with fin k show ?thesis by simp
  qed
qed

theorem run_never_removes_from_empty_witness:
  "pq_is_empty pq_new \<and> pq_remove pq_new = Inl EmptyQueueError
   \<and> \<not> pq_is_empty (pq_add pq_new (OtherEvent 1))
   \<and> pq_remove (pq_add pq_new (OtherEvent 1)) = Inr (OtherEvent 1, \<lparr>items = [], next_seq = 1\<rparr>)
   \<and> run (\<lambda>e s. ([], s)) (init ()) [CheckoutCompleted 1 ''A'', CustomerArrival 2 ''B'']
       = Some (Some KeyError,
           \<lparr>events = \<lparr>items = [(1, CustomerArrival 2 ''B'')], next_seq = 2\<rparr>, store = (),
            stats = \<lparr>num_customers = 0, total_time = 1, max_wait = 0\<rparr>\<rparr>)
   \<and> Some KeyError \<noteq> Some EmptyQueueError"
proof -
  have r: "run (\<lambda>e s. ([], s)) (init ()) [CheckoutCompleted 1 ''A'', CustomerArrival 2 ''B'']
       = Some (Some KeyError,
           \<lparr>events = \<lparr>items = [(1, CustomerArrival 2 ''B'')], next_seq = 2\<rparr>, store = (),
            stats = \<lparr>num_customers = 0, total_time = 1, max_wait = 0\<rparr>\<rparr>)"
    by (simp add: run_eval)
  show ?thesis
    using run_never_removes_from_empty [of pq_new "\<lambda>e s. ([], s)" "init ()"
        "[CheckoutCompleted 1 ''A'', CustomerArrival 2 ''B'']" "Some KeyError"]
      run_never_removes_from_empty [of "pq_add pq_new (OtherEvent 1)" "\<lambda>e s. ([], s)" "init ()"
        "[CheckoutCompleted 1 ''A'', CustomerArrival 2 ''B'']" "Some KeyError"] r
    by (simp add: pq_new_def pq_is_empty_def pq_add_def pq_remove_def pq_pop_def)
qed

section \<open>Completions without an arrival\<close>

text \<open>
  C9: a run that returns has failed on the lookup of a missing customer key exactly when
  it executed a checkout completion for a customer with no arrival executed before it;
  so \<open>run\<close> completes without that failure only when every completion's customer has a
  previously executed arrival.
\<close>

theorem run_completion_needs_arrival:
  assumes "run_trace do s initial_events = Some (err, st)"
  shows "(err = Some KeyError) = (\<not> arrivals_first [] (executed st))"
  using run_trace_kept [OF assms] by (auto simp: well_kept_def split: if_splits)

theorem run_completion_needs_arrival_witness:
  "run_trace (\<lambda>e s. ([], s)) (init ()) [CustomerArrival 2 ''A'', CheckoutCompleted 1 ''A'']
   = Some (Some KeyError,
       \<lparr>sim = \<lparr>events = \<lparr>items = [(0, CustomerArrival 2 ''A'')], next_seq = 2\<rparr>, store = (),
               stats = \<lparr>num_customers = 0, total_time = 1, max_wait = 0\<rparr>\<rparr>,
        customers = [], executed = [CheckoutCompleted 1 ''A'']\<rparr>)
   \<and> \<not> arrivals_first [] [CheckoutCompleted 1 ''A'']"
proof -
  have r: "run_trace (\<lambda>e s. ([], s)) (init ()) [CustomerArrival 2 ''A'', CheckoutCompleted 1 ''A'']
   = Some (Some KeyError,
       \<lparr>sim = \<lparr>events = \<lparr>items = [(0, CustomerArrival 2 ''A'')], next_seq = 2\<rparr>, store = (),
               stats = \<lparr>num_customers = 0, total_time = 1, max_wait = 0\<rparr>\<rparr>,
        customers = [], executed = [CheckoutCompleted 1 ''A'']\<rparr>)"
    by (simp add: run_eval)
  show ?thesis using run_completion_needs_arrival [OF r] r by simp
qed

section \<open>Customers that complete more than once\<close>

text \<open>
  C10: for every run that returns without an exception, \<open>max_wait\<close> is the maximum of 0 and,
  over the customers that arrived, the timestamp of the customer's first completion minus
  that of its first arrival. The later completions of a customer are recorded in its list
  of timestamps, and \<open>max_wait\<close> does not depend on them.
\<close>

theorem run_max_wait_first_completion:
  assumes "run_trace do s initial_events = Some (None, st)"
  shows "max_wait (stats (sim st)) = max_wait_of (executed st)
       \<and> recorded (executed st) (customers st)"
proof -
  from assms obtain err0 st0 where
    loop: "run_loop do \<lparr>sim = s\<lparr>stats := zero_stats,
        events := fold (\<lambda>e q. pq_add q e) initial_events (events s)\<rparr>,
        customers = [], executed = []\<rparr> = Some (err0, st0)"
    and fin: "case err0 of None \<Rightarrow> finish st0 = (None, st) | Some x \<Rightarrow> None = Some x \<and> st = st0"
    by (rule run_trace_split)
  from fin have f: "finish st0 = (None, st)" by (cases err0) simp_all
  from run_trace_kept [OF assms] have r: "recorded (executed st) (customers st)"
    by (simp add: well_kept_def)
  have full: "\<forall>x\<in>set (customers st). \<not> length (snd x) < 2"
    using finish_facts(5) [OF f] finish_facts(2) [OF f] by simp
  have "max_wait (stats (sim st)) = Max (set (0 # map (\<lambda>x. snd x ! 1 - snd x ! 0) (customers st)))"
    using finish_facts(7) [OF f] finish_facts(2) [OF f] by simp
  also have "\<dots> = max_wait_of (executed st)"
    using recorded_waits [OF r full] by (simp add: max_wait_of_def)
  finally show ?thesis using r by simp
qed

theorem run_max_wait_first_completion_witness:
  "run_trace (\<lambda>e s. ([], s)) (init ())
       [CustomerArrival 0 ''A'', CheckoutCompleted 3 ''A'', CheckoutCompleted 7 ''A'']
   = Some (None,
       \<lparr>sim = \<lparr>events = \<lparr>items = [], next_seq = 3\<rparr>, store = (),
               stats = \<lparr>num_customers = 1, total_time = 7, max_wait = 3\<rparr>\<rparr>,
        customers = [(''A'', [0, 3, 7])],
        executed = [CustomerArrival 0 ''A'', CheckoutCompleted 3 ''A'', CheckoutCompleted 7 ''A'']\<rparr>)
   \<and> max_wait_of [CustomerArrival 0 ''A'', CheckoutCompleted 3 ''A'', CheckoutCompleted 7 ''A''] = 3
   \<and> completions ''A''
        [CustomerArrival 0 ''A'', CheckoutCompleted 3 ''A'', CheckoutCompleted 7 ''A''] = [3, 7]"
proof -
  have r: "run_trace (\<lambda>e s. ([], s)) (init ())
       [CustomerArrival 0 ''A'', CheckoutCompleted 3 ''A'', CheckoutCompleted 7 ''A'']
   = Some (None,
       \<lparr>sim = \<lparr>events = \<lparr>items = [], next_seq = 3\<rparr>, store = (),
               stats = \<lparr>num_customers = 1, total_time = 7, max_wait = 3\<rparr>\<rparr>,
        customers = [(''A'', [0, 3, 7])],
        executed = [CustomerArrival 0 ''A'', CheckoutCompleted 3 ''A'', CheckoutCompleted 7 ''A'']\<rparr>)"
    by (simp add: run_eval)
  show ?thesis using run_max_wait_first_completion [OF r] r by simp
qed

end
